theory Spec2Isabelle
  imports Main "HOL-Library.Word" "HOL-Library.Signed_Division" "HOL-Library.Multiset"
begin

section \<open>Virtual wires: a model of hw/core/wire.c\<close>

text \<open>
  The C code keeps wires and wire drivers as heap objects that point at each other.
  The model keeps one store per object kind, from addresses to records; a pointer is an
  optional address, \<open>None\<close> being \<open>NULL\<close>.  Every function that can dereference
  a pointer returns a result: \<open>Some (Inr x)\<close> when it returns \<open>x\<close>,
  \<open>Some (Inl f)\<close> when it faults (a \<open>NULL\<close> or dangling pointer, a read past
  the end of an array or of a slot that was never written), and \<open>None\<close> when it does
  not return.
\<close>

subsection \<open>Pointers, faults, results\<close>

type_synonym qemu_wire = "nat option"
type_synonym qemu_wiredriver = "nat option"

datatype fault = Null_pointer | Bad_pointer | Out_of_bounds | Uninitialised

type_synonym 'a result = "(fault + 'a) option"

abbreviation returns :: "'a \<Rightarrow> 'a result" where
  "returns x \<equiv> Some (Inr x)"

abbreviation faults :: "fault \<Rightarrow> 'a result" where
  "faults e \<equiv> Some (Inl e)"

definition bind_r :: "'a result \<Rightarrow> ('a \<Rightarrow> 'b result) \<Rightarrow> 'b result" where
  "bind_r m f = (case m of None \<Rightarrow> None | Some (Inl e) \<Rightarrow> faults e | Some (Inr x) \<Rightarrow> f x)"

subsection \<open>Constants of include/hw/wire.h\<close>

definition STRENGTH_HI_Z :: "'a::len word" where "STRENGTH_HI_Z = 0"
definition STRENGTH_SMALL :: "'a::len word" where "STRENGTH_SMALL = 1"
definition STRENGTH_MEDIUM :: "'a::len word" where "STRENGTH_MEDIUM = 2"
definition STRENGTH_WEAK :: "'a::len word" where "STRENGTH_WEAK = 3"
definition STRENGTH_LARGE :: "'a::len word" where "STRENGTH_LARGE = 4"
definition STRENGTH_PULL :: "'a::len word" where "STRENGTH_PULL = 5"
definition STRENGTH_STRONG :: "'a::len word" where "STRENGTH_STRONG = 6"
definition STRENGTH_SUPPLY :: "'a::len word" where "STRENGTH_SUPPLY = 7"
definition STRENGTH_DEFAULT :: "'a::len word" where "STRENGTH_DEFAULT = STRENGTH_PULL"
definition STRENGTH_MAX :: "'a::len word" where "STRENGTH_MAX = STRENGTH_SUPPLY"
definition WIRE_INTRINSIC_DEFAULT :: "32 word" where "WIRE_INTRINSIC_DEFAULT = 3300000"
definition VALUE_MODE_D :: "1 word" where "VALUE_MODE_D = 0"
definition VALUE_MODE_A :: "1 word" where "VALUE_MODE_A = 1"

subsection \<open>The structs\<close>

text \<open>
  \<open>int\<close> and \<open>unsigned\<close> are 32-bit words, the bit-fields \<open>strength : 3\<close>
  and \<open>value_mode : 1\<close> are 3-bit and 1-bit words, and the one-bit flags, which the code
  only sets, clears and tests, are booleans.  Field names carry a prefix
  (\<open>wd_\<close>, \<open>w_\<close>, \<open>d_\<close>, \<open>l_\<close>, \<open>ml_\<close>) because several structs
  share the names \<open>value\<close>, \<open>strength\<close>, \<open>value_mode\<close> and \<open>changed\<close>.
\<close>

record qemu_wire_drive =
  wd_driver :: qemu_wiredriver
  wd_value :: "32 word"
  wd_strength :: "3 word"
  wd_value_mode :: "1 word"

record wire_listener =
  l_handler :: nat
  l_opaque :: nat

text \<open>
  \<open>struct wire_driver_attachment\<close> has the single field \<open>driver\<close>; the vector
  of attachments is the list of these pointers.

  A vector (\<open>struct vector\<close>: \<open>base\<close>, \<open>len\<close>, \<open>alloc\<close>) is the list of its
  elements below \<open>len\<close>.  Two vectors are read by index while listeners run, which may
  shorten them meanwhile: \<open>wire->listeners\<close> in \<open>wire_call_listeners\<close> and
  \<open>driver->wires\<close> in \<open>wiredriver_clear\<close>.  For these the slots from \<open>len\<close> up
  to \<open>alloc\<close> are kept as well, in \<open>w_listeners_slack\<close> and \<open>d_wires_slack\<close>:
  \<open>Some x\<close> for a slot that holds \<open>x\<close>, \<open>None\<close> for a slot that was never written.
  Every other read of a vector is at an index the code has just compared with \<open>len\<close>.
\<close>

record WireState =
  w_intrinsic :: "32 word"
  w_attachments :: "qemu_wiredriver list"
  w_listeners :: "wire_listener list"
  w_listeners_slack :: "wire_listener option list"
  w_value :: "32 word"
  w_strength :: "3 word"
  w_value_mode :: "1 word"
  w_is_conflict :: bool
  w_changed :: bool
  w_in_callback :: bool
  w_driver_changed :: bool

record WireDriverState =
  d_wires :: "qemu_wire list"
  d_wires_slack :: "qemu_wire option list"
  d_value :: "32 word"
  d_strength :: "3 word"
  d_value_mode :: "1 word"
  d_changed :: bool

record multi_listener =
  ml_handler :: nat
  ml_opaque :: nat
  ml_n :: nat
  ml_value :: "32 word"
  ml_weakest_strength :: "32 word"
  ml_in_conflict :: bool
  ml_wires :: "qemu_wire list"

text \<open>
  The trace is a history variable: it records, in order, each run of \<open>wire_update\<close>,
  each sweep of \<open>wire_call_listeners\<close>, the diagnostic that sweep prints when it finds
  \<open>in_callback\<close> set, each call of a listener's handler and each call of a composite
  listener's user handler.  The code never reads it.
\<close>

datatype event =
    Ev_wire_update nat
  | Ev_call_listeners nat
  | Ev_diagnostic nat
  | Ev_handler nat nat nat
  | Ev_multi_handler nat nat "32 word" "32 word" nat

record state =
  wire_heap :: "nat \<rightharpoonup> WireState"
  driver_heap :: "nat \<rightharpoonup> WireDriverState"
  multi_heap :: "nat \<rightharpoonup> multi_listener"
  trace :: "event list"

subsection \<open>Dereferencing and vectors\<close>

definition wire_at :: "state \<Rightarrow> qemu_wire \<Rightarrow> (nat \<times> WireState) result" where
  "wire_at s p =
     (case p of
        None \<Rightarrow> faults Null_pointer
      | Some a \<Rightarrow> (case wire_heap s a of None \<Rightarrow> faults Bad_pointer | Some W \<Rightarrow> returns (a, W)))"

definition driver_at :: "state \<Rightarrow> qemu_wiredriver \<Rightarrow> (nat \<times> WireDriverState) result" where
  "driver_at s p =
     (case p of
        None \<Rightarrow> faults Null_pointer
      | Some a \<Rightarrow> (case driver_heap s a of None \<Rightarrow> faults Bad_pointer | Some D \<Rightarrow> returns (a, D)))"

definition put_wire :: "nat \<Rightarrow> WireState \<Rightarrow> state \<Rightarrow> state" where
  "put_wire a W s = s\<lparr>wire_heap := (wire_heap s)(a \<mapsto> W)\<rparr>"

definition put_driver :: "nat \<Rightarrow> WireDriverState \<Rightarrow> state \<Rightarrow> state" where
  "put_driver a D s = s\<lparr>driver_heap := (driver_heap s)(a \<mapsto> D)\<rparr>"

definition log_event :: "event \<Rightarrow> state \<Rightarrow> state" where
  "log_event e s = s\<lparr>trace := trace s @ [e]\<rparr>"

text \<open>\<open>VECTOR_AT(v, i)\<close> and the plain array read \<open>a[i]\<close>, where the index is below
  the length; a read past the end of an array is a fault of the model.\<close>

definition VECTOR_AT :: "'a list \<Rightarrow> nat \<Rightarrow> 'a result" where
  "VECTOR_AT v i = (if i < length v then returns (v ! i) else faults Out_of_bounds)"

text \<open>\<open>VECTOR_AT(v, i)\<close> as the macro is, \<open>(v).elem[i]\<close>: it reads slot \<open>i\<close> whatever
  \<open>len\<close> is.  Below \<open>len\<close> that is the element, from \<open>len\<close> up to \<open>alloc\<close> it is
  what the slot still holds, and past \<open>alloc\<close> it is a read outside the array.\<close>

definition VECTOR_SLOT :: "'a list \<Rightarrow> 'a option list \<Rightarrow> nat \<Rightarrow> 'a result" where
  "VECTOR_SLOT v slack i =
     (if i < length v then returns (v ! i)
      else if i - length v < length slack then
        (case slack ! (i - length v) of Some x \<Rightarrow> returns x | None \<Rightarrow> faults Uninitialised)
      else faults Out_of_bounds)"

text \<open>\<open>vector_del\<close>: deletes element \<open>i\<close> when \<open>i < len\<close>, else does nothing.  The
  \<open>memmove\<close> shifts the elements after \<open>i\<close> down by one and \<open>len\<close> is decremented,
  so the slot at the old \<open>len - 1\<close> keeps the element it held, the old last one.\<close>

definition vector_del :: "'a list \<Rightarrow> nat \<Rightarrow> 'a list" where
  "vector_del v i = (if i < length v then take i v @ drop (Suc i) v else v)"

definition vector_del_slack :: "'a list \<Rightarrow> nat \<Rightarrow> 'a option list \<Rightarrow> 'a option list" where
  "vector_del_slack v i slack = (if i < length v then Some (last v) # slack else slack)"

text \<open>\<open>vector_grow(v, len + 1)\<close> inside \<open>VECTOR_APPEND\<close>: when \<open>len + 1 > alloc\<close>
  the array is reallocated to \<open>(len + 1 + 127) & ~127\<close> slots, the new ones never
  written; the append then takes the first slot past \<open>len\<close>.  (A failing \<open>g_realloc\<close>
  and the wrap of \<open>unsigned\<close> are not modelled.)\<close>

definition vector_grow_slack :: "nat \<Rightarrow> 'a option list" where
  "vector_grow_slack n = replicate (((n + 127) div 128) * 128 - n) None"

definition vector_append_slack :: "'a list \<Rightarrow> 'a option list \<Rightarrow> 'a option list" where
  "vector_append_slack v slack =
     (if slack = [] then vector_grow_slack (length v + 1) else tl slack)"

subsection \<open>\<open>wire_update\<close>: the resolver and the change predicate\<close>

definition best_init :: qemu_wire_drive where
  "best_init = \<lparr>wd_driver = None, wd_value = 0, wd_strength = STRENGTH_HI_Z,
                 wd_value_mode = VALUE_MODE_D\<rparr>"

text \<open>The loop \<open>for (i = VECTOR_LEN(wire->attachments); i--; )\<close>: the third argument is
  the value of \<open>i\<close> before the test, so the body runs at \<open>i - 1\<close>.\<close>

fun wire_update_walk ::
  "state \<Rightarrow> qemu_wiredriver list \<Rightarrow> nat \<Rightarrow> qemu_wire_drive \<Rightarrow> bool \<Rightarrow> (qemu_wire_drive \<times> bool) result"
where
  "wire_update_walk s atts 0 best is_conflict = returns (best, is_conflict)"
| "wire_update_walk s atts (Suc i) best is_conflict =
     bind_r (VECTOR_AT atts i) (\<lambda>p.
     bind_r (driver_at s p) (\<lambda>(d, driver).
       if d_strength driver = 0 \<or> wd_strength best > d_strength driver then
         wire_update_walk s atts i best is_conflict
       else if d_strength driver = wd_strength best then
         (if is_conflict then wire_update_walk s atts i best is_conflict
          else if wd_value_mode best \<noteq> d_value_mode driver then
            wire_update_walk s atts i best True
          else if wd_value best \<noteq> d_value driver then
            wire_update_walk s atts i best True
          else wire_update_walk s atts i best is_conflict)
       else
         wire_update_walk s atts i
           (best\<lparr>wd_strength := d_strength driver,
                 wd_value_mode := d_value_mode driver,
                 wd_value := d_value driver\<rparr>)
           False))"

text \<open>The second half of \<open>wire_update\<close>: the \<open>changed\<close> flag is computed from the
  state cached so far, then the resolved state is cached.\<close>

definition wire_commit :: "WireState \<Rightarrow> qemu_wire_drive \<Rightarrow> bool \<Rightarrow> WireState" where
  "wire_commit W best is_conflict =
     W\<lparr>w_changed :=
         (if \<not> w_changed W then
            (is_conflict \<noteq> w_is_conflict W) \<or>
            (wd_strength best = 0 \<and> w_strength W \<noteq> 0) \<or>
            (wd_strength best \<noteq> 0 \<and> w_strength W = 0) \<or>
            (wd_strength best \<noteq> 0 \<and>
               (wd_value_mode best \<noteq> w_value_mode W \<or> wd_value best \<noteq> w_value W))
          else w_changed W),
       w_strength := wd_strength best,
       w_is_conflict := is_conflict,
       w_value := wd_value best,
       w_value_mode := wd_value_mode best\<rparr>"

definition wire_update :: "qemu_wire \<Rightarrow> state \<Rightarrow> state result" where
  "wire_update wire s =
     bind_r (wire_at s wire) (\<lambda>(w, W).
     bind_r (wire_update_walk s (w_attachments W) (length (w_attachments W)) best_init False)
       (\<lambda>(best, is_conflict).
          returns (put_wire w (wire_commit W best is_conflict) (log_event (Ev_wire_update w) s))))"

subsection \<open>Listeners and notification\<close>

text \<open>
  A listener's handler is a function pointer into code outside the library.  The model
  takes the meaning of calling one as a parameter \<open>cb\<close>: given the handler, its
  \<open>opaque\<close> argument and the wire, a function from the state before the call to the
  result of the call.  A handler may call back into the library, so the state it returns
  may differ in any way from the state it was given, and it may fault or not return.
\<close>

type_synonym callback = "nat \<Rightarrow> nat \<Rightarrow> qemu_wire \<Rightarrow> state \<Rightarrow> state result"

text \<open>A handler that returns without calling back into the library leaves the state of
  the model as it is (what it does to memory of its own is outside the model).\<close>

definition leaf_listener :: callback where
  "leaf_listener handler opaque wire s = returns s"

text \<open>\<open>qemu_wire_listen\<close> (the failure of \<open>VECTOR_APPEND\<close> to allocate is not
  modelled).\<close>

definition qemu_wire_listen :: "qemu_wire \<Rightarrow> nat \<Rightarrow> nat \<Rightarrow> state \<Rightarrow> state result" where
  "qemu_wire_listen wire handler opaque s =
     (case wire of
        None \<Rightarrow> returns s
      | Some _ \<Rightarrow>
          bind_r (wire_at s wire) (\<lambda>(w, W).
            returns (put_wire w
              (W\<lparr>w_listeners := w_listeners W @ [\<lparr>l_handler = handler, l_opaque = opaque\<rparr>],
                 w_listeners_slack := vector_append_slack (w_listeners W) (w_listeners_slack W)\<rparr>)
              s)))"

text \<open>The search loops \<open>for (i = VECTOR_LEN(v); i--; ) if (P(VECTOR_AT(v, i))) { ...; break; }\<close>
  of \<open>qemu_wire_unlisten\<close> and \<open>qemu_wire_detach\<close>: the greatest index below \<open>i\<close>
  whose element satisfies \<open>P\<close>.\<close>

fun find_last :: "('a \<Rightarrow> bool) \<Rightarrow> 'a list \<Rightarrow> nat \<Rightarrow> nat option" where
  "find_last P v 0 = None"
| "find_last P v (Suc i) = (if P (v ! i) then Some i else find_last P v i)"

definition del_last_match :: "('a \<Rightarrow> bool) \<Rightarrow> 'a list \<Rightarrow> 'a list" where
  "del_last_match P v = (case find_last P v (length v) of None \<Rightarrow> v | Some i \<Rightarrow> vector_del v i)"

definition del_last_match_slack ::
  "('a \<Rightarrow> bool) \<Rightarrow> 'a list \<Rightarrow> 'a option list \<Rightarrow> 'a option list" where
  "del_last_match_slack P v slack =
     (case find_last P v (length v) of None \<Rightarrow> slack | Some i \<Rightarrow> vector_del_slack v i slack)"

definition qemu_wire_unlisten :: "qemu_wire \<Rightarrow> nat \<Rightarrow> nat \<Rightarrow> state \<Rightarrow> state result" where
  "qemu_wire_unlisten wire handler opaque s =
     (case wire of
        None \<Rightarrow> returns s
      | Some _ \<Rightarrow>
          bind_r (wire_at s wire) (\<lambda>(w, W).
            returns (put_wire w
              (W\<lparr>w_listeners :=
                   del_last_match (\<lambda>lis. l_handler lis = handler \<and> l_opaque lis = opaque)
                     (w_listeners W),
                 w_listeners_slack :=
                   del_last_match_slack (\<lambda>lis. l_handler lis = handler \<and> l_opaque lis = opaque)
                     (w_listeners W) (w_listeners_slack W)\<rparr>) s)))"

text \<open>The loop of \<open>wire_call_listeners\<close>, \<open>for (i = VECTOR_LEN(wire->listeners); i--; )\<close>.
  The length is read once; the wire and its listener vector are read again at every
  iteration, since the handler just called may have changed them, and slot \<open>i\<close> is read
  even when the vector has become shorter than \<open>i + 1\<close>.\<close>

fun call_listeners_walk :: "callback \<Rightarrow> qemu_wire \<Rightarrow> nat \<Rightarrow> state \<Rightarrow> state result" where
  "call_listeners_walk cb wire 0 s = returns s"
| "call_listeners_walk cb wire (Suc i) s =
     bind_r (wire_at s wire) (\<lambda>(w, W).
     bind_r (VECTOR_SLOT (w_listeners W) (w_listeners_slack W) i) (\<lambda>listener.
     bind_r (cb (l_handler listener) (l_opaque listener) wire
               (log_event (Ev_handler (l_handler listener) (l_opaque listener) w) s))
       (\<lambda>s'. call_listeners_walk cb wire i s')))"

definition wire_call_listeners :: "callback \<Rightarrow> qemu_wire \<Rightarrow> state \<Rightarrow> state result" where
  "wire_call_listeners cb wire s =
     bind_r (wire_at s wire) (\<lambda>(w, W).
       let s1 = (if w_in_callback W then log_event (Ev_diagnostic w) s else s);
           s2 = put_wire w (W\<lparr>w_in_callback := True\<rparr>) (log_event (Ev_call_listeners w) s1)
       in bind_r (call_listeners_walk cb wire (length (w_listeners W)) s2) (\<lambda>s3.
          bind_r (wire_at s3 wire) (\<lambda>(w3, W3).
            returns (put_wire w3 (W3\<lparr>w_in_callback := False\<rparr>) s3))))"

definition wire_notify_if_changed :: "callback \<Rightarrow> qemu_wire \<Rightarrow> state \<Rightarrow> state result" where
  "wire_notify_if_changed cb wire s =
     bind_r (wire_at s wire) (\<lambda>(w, W).
       if w_changed W then wire_call_listeners cb wire (put_wire w (W\<lparr>w_changed := False\<rparr>) s)
       else returns s)"

subsection \<open>Attach and detach\<close>

text \<open>\<open>qemu_wire_attach\<close> and \<open>qemu_wire_detach\<close>.  The reference count of the driver
  (\<open>object_ref\<close> in attach, \<open>object_unref\<close> in detach) belongs to the object system,
  which is outside the model, as is a failing allocation.\<close>

definition qemu_wire_attach :: "qemu_wire \<Rightarrow> qemu_wiredriver \<Rightarrow> state \<Rightarrow> state result" where
  "qemu_wire_attach wire driver s =
     (case wire of
        None \<Rightarrow> returns s
      | Some _ \<Rightarrow>
          bind_r (wire_at s wire) (\<lambda>(w, W).
            let s1 = put_wire w (W\<lparr>w_attachments := w_attachments W @ [driver]\<rparr>) s
            in bind_r (driver_at s1 driver) (\<lambda>(d, D).
                 returns (put_driver d
                   (D\<lparr>d_wires := d_wires D @ [wire],
                      d_wires_slack := vector_append_slack (d_wires D) (d_wires_slack D)\<rparr>) s1))))"

definition qemu_wire_detach ::
  "callback \<Rightarrow> qemu_wire \<Rightarrow> qemu_wiredriver \<Rightarrow> state \<Rightarrow> state result" where
  "qemu_wire_detach cb wire driver s =
     (case wire of
        None \<Rightarrow> returns s
      | Some _ \<Rightarrow>
          bind_r (driver_at s driver) (\<lambda>(d, D).
            let s1 = put_driver d
                       (D\<lparr>d_wires := del_last_match (\<lambda>p. p = wire) (d_wires D),
                          d_wires_slack :=
                            del_last_match_slack (\<lambda>p. p = wire) (d_wires D) (d_wires_slack D)\<rparr>) s
            in bind_r (wire_at s1 wire) (\<lambda>(w, W).
                 let s2 = put_wire w
                            (W\<lparr>w_attachments :=
                                 del_last_match (\<lambda>p. p = driver) (w_attachments W)\<rparr>) s1
                 in bind_r (wire_update wire s2) (\<lambda>s3. wire_notify_if_changed cb wire s3))))"

definition qemu_set_wire_intrinsic :: "qemu_wire \<Rightarrow> 32 word \<Rightarrow> state \<Rightarrow> state result" where
  "qemu_set_wire_intrinsic wire v s =
     (case wire of
        None \<Rightarrow> returns s
      | Some _ \<Rightarrow> bind_r (wire_at s wire) (\<lambda>(w, W). returns (put_wire w (W\<lparr>w_intrinsic := v\<rparr>) s)))"

subsection \<open>\<open>qemu_wire_multi_drive\<close> and the single-driver operations\<close>

text \<open>Phase 1, inner loop: every wire of the driver gets \<open>driver_changed = 1\<close>.\<close>

fun mark_wires :: "qemu_wire list \<Rightarrow> state \<Rightarrow> state result" where
  "mark_wires [] s = returns s"
| "mark_wires (wire # ws) s =
     bind_r (wire_at s wire) (\<lambda>(w, W).
       mark_wires ws (put_wire w (W\<lparr>w_driver_changed := True\<rparr>) s))"

text \<open>Phase 1: copy the new values into their drivers.\<close>

fun drive_apply :: "qemu_wire_drive list \<Rightarrow> state \<Rightarrow> state result" where
  "drive_apply [] s = returns s"
| "drive_apply (wd # wds) s =
     (case wd_driver wd of
        None \<Rightarrow> drive_apply wds s
      | Some _ \<Rightarrow>
          bind_r (driver_at s (wd_driver wd)) (\<lambda>(d, D).
            if d_strength D = wd_strength wd \<and> d_value_mode D = wd_value_mode wd \<and>
               d_value D = wd_value wd
            then drive_apply wds s
            else
              bind_r (mark_wires (d_wires D)
                        (put_driver d
                           (D\<lparr>d_strength := wd_strength wd,
                              d_value_mode := wd_value_mode wd,
                              d_value := wd_value wd,
                              d_changed := True\<rparr>) s))
                (drive_apply wds)))"

text \<open>Phase 2, inner loop: update each wire of the driver that is still marked.\<close>

fun update_wires :: "qemu_wire list \<Rightarrow> state \<Rightarrow> state result" where
  "update_wires [] s = returns s"
| "update_wires (wire # ws) s =
     bind_r (wire_at s wire) (\<lambda>(w, W).
       if w_driver_changed W then
         bind_r (wire_update wire s) (\<lambda>s1.
         bind_r (wire_at s1 wire) (\<lambda>(w1, W1).
           update_wires ws (put_wire w1 (W1\<lparr>w_driver_changed := False\<rparr>) s1)))
       else update_wires ws s)"

text \<open>Phase 2: update each wire that has a driver that changed.\<close>

fun drive_update :: "qemu_wire_drive list \<Rightarrow> state \<Rightarrow> state result" where
  "drive_update [] s = returns s"
| "drive_update (wd # wds) s =
     (case wd_driver wd of
        None \<Rightarrow> drive_update wds s
      | Some _ \<Rightarrow>
          bind_r (driver_at s (wd_driver wd)) (\<lambda>(d, D).
            if \<not> d_changed D then drive_update wds s
            else bind_r (update_wires (d_wires D) s) (drive_update wds)))"

text \<open>
  Phase 3, inner loop: \<open>for (i = 0; i < VECTOR_LEN(driver->wires); i++)\<close> around
  \<open>wire_notify_if_changed\<close>.  The listeners run inside the loop, so the length and the
  element are read from the state each iteration leaves; a handler that keeps attaching
  the driver to further wires keeps the loop running, and then the result is \<open>None\<close>.
\<close>

partial_function (option) notify_wires ::
  "callback \<Rightarrow> qemu_wiredriver \<Rightarrow> nat \<Rightarrow> state \<Rightarrow> state result" where
  "notify_wires cb driver i s =
     (case driver_at s driver of
        None \<Rightarrow> None
      | Some (Inl e) \<Rightarrow> faults e
      | Some (Inr (d, D)) \<Rightarrow>
          if i < length (d_wires D) then
            (case wire_notify_if_changed cb (d_wires D ! i) s of
               None \<Rightarrow> None
             | Some (Inl e) \<Rightarrow> faults e
             | Some (Inr s') \<Rightarrow> notify_wires cb driver (i + 1) s')
          else returns s)"

text \<open>Phase 3: call all the listeners that may have changed.\<close>

fun drive_notify :: "callback \<Rightarrow> qemu_wire_drive list \<Rightarrow> state \<Rightarrow> state result" where
  "drive_notify cb [] s = returns s"
| "drive_notify cb (wd # wds) s =
     (case wd_driver wd of
        None \<Rightarrow> drive_notify cb wds s
      | Some _ \<Rightarrow>
          bind_r (driver_at s (wd_driver wd)) (\<lambda>(d, D).
            if \<not> d_changed D then drive_notify cb wds s
            else bind_r (notify_wires cb (wd_driver wd) 0 (put_driver d (D\<lparr>d_changed := False\<rparr>) s))
                   (drive_notify cb wds)))"

definition qemu_wire_multi_drive :: "callback \<Rightarrow> qemu_wire_drive list \<Rightarrow> state \<Rightarrow> state result" where
  "qemu_wire_multi_drive cb drives s =
     bind_r (drive_apply drives s) (\<lambda>s1.
     bind_r (drive_update drives s1) (\<lambda>s2.
       drive_notify cb drives s2))"

text \<open>The single-driver operations.  The parameter \<open>unsigned strength\<close> is stored in the
  3-bit field of the descriptor, which keeps its low three bits.\<close>

definition qemu_wire_drive ::
  "callback \<Rightarrow> qemu_wiredriver \<Rightarrow> 32 word \<Rightarrow> bool \<Rightarrow> state \<Rightarrow> state result" where
  "qemu_wire_drive cb driver strength dval s =
     qemu_wire_multi_drive cb
       [\<lparr>wd_driver = driver, wd_value = (if dval then 1 else 0), wd_strength = ucast strength,
         wd_value_mode = VALUE_MODE_D\<rparr>] s"

definition qemu_wire_drive_a ::
  "callback \<Rightarrow> qemu_wiredriver \<Rightarrow> 32 word \<Rightarrow> 32 word \<Rightarrow> state \<Rightarrow> state result" where
  "qemu_wire_drive_a cb driver strength aval s =
     qemu_wire_multi_drive cb
       [\<lparr>wd_driver = driver, wd_value = aval, wd_strength = ucast strength,
         wd_value_mode = VALUE_MODE_A\<rparr>] s"

definition qemu_wire_drive_z :: "callback \<Rightarrow> qemu_wiredriver \<Rightarrow> state \<Rightarrow> state result" where
  "qemu_wire_drive_z cb driver s = qemu_wire_drive cb driver STRENGTH_HI_Z False s"

subsection \<open>Sensing\<close>

text \<open>The sense operations return the value together with what they store through
  \<open>strength_return\<close>.  \<open>wire->intrinsic / 2\<close> is C's signed division, which truncates
  towards zero.\<close>

definition qemu_wire_sense :: "qemu_wire \<Rightarrow> state \<Rightarrow> (bool \<times> 32 word) result" where
  "qemu_wire_sense wire s =
     (case wire of
        None \<Rightarrow> returns (False, STRENGTH_HI_Z)
      | Some _ \<Rightarrow>
          bind_r (wire_at s wire) (\<lambda>(w, W).
            returns
              (if w_value_mode W = VALUE_MODE_A then sint (w_value W) \<ge> sint (w_intrinsic W) sdiv 2
               else if w_value_mode W = VALUE_MODE_D then w_value W \<noteq> 0
               else False,
               ucast (w_strength W))))"

definition qemu_wire_sense_a :: "qemu_wire \<Rightarrow> state \<Rightarrow> (32 word \<times> 32 word) result" where
  "qemu_wire_sense_a wire s =
     (case wire of
        None \<Rightarrow> returns (0, STRENGTH_HI_Z)
      | Some _ \<Rightarrow>
          bind_r (wire_at s wire) (\<lambda>(w, W).
            returns
              (if w_value_mode W = VALUE_MODE_A then w_value W
               else if w_value_mode W = VALUE_MODE_D then
                 (if w_value W \<noteq> 0 then w_intrinsic W else 0)
               else 0,
               ucast (w_strength W))))"

definition qemu_wire_sense_strength :: "qemu_wire \<Rightarrow> state \<Rightarrow> 32 word result" where
  "qemu_wire_sense_strength wire s =
     (case wire of
        None \<Rightarrow> returns STRENGTH_HI_Z
      | Some _ \<Rightarrow> bind_r (wire_at s wire) (\<lambda>(w, W). returns (ucast (w_strength W))))"

definition qemu_wire_sense_conflicted :: "qemu_wire \<Rightarrow> state \<Rightarrow> bool result" where
  "qemu_wire_sense_conflicted wire s =
     (case wire of
        None \<Rightarrow> returns False
      | Some _ \<Rightarrow> bind_r (wire_at s wire) (\<lambda>(w, W). returns (w_is_conflict W)))"

text \<open>The loop of \<open>qemu_wire_multi_sense\<close>, from index \<open>i\<close> with the current \<open>bit\<close> (here \<open>bitv\<close>),
  \<open>result\<close> and \<open>weakest\<close>.  \<open>wires\<close> is a plain C array: a read past its end is a fault
  of the model.\<close>

function multi_sense_walk ::
  "state \<Rightarrow> qemu_wire list \<Rightarrow> nat \<Rightarrow> nat \<Rightarrow> 32 word \<Rightarrow> 32 word \<Rightarrow> 32 word \<Rightarrow> (32 word \<times> 32 word) result"
where
  "multi_sense_walk s wires n i bitv result weakest =
     (if i < n then
        bind_r (VECTOR_AT wires i) (\<lambda>wire.
        bind_r (qemu_wire_sense wire s) (\<lambda>(v, strength).
          multi_sense_walk s wires n (i + 1) (push_bit 1 bitv)
            (if v then or result bitv else result)
            (if i = 0 \<or> strength < weakest then strength else weakest)))
      else returns (result, weakest))"
  by pat_completeness auto
termination
  by (relation "measure (\<lambda>(s, wires, n, i, bitv, result, weakest). n - i)") auto

definition qemu_wire_multi_sense ::
  "qemu_wire list \<Rightarrow> nat \<Rightarrow> state \<Rightarrow> (32 word \<times> 32 word) result" where
  "qemu_wire_multi_sense wires n s =
     multi_sense_walk s wires (if n > 32 then 32 else n) 0 1 0 STRENGTH_HI_Z"

subsection \<open>The composite listener\<close>

text \<open>The loop \<open>for (i = ml->n; !in_conflict && i--;)\<close> of \<open>multi_handler\<close>.\<close>

fun conflict_walk :: "state \<Rightarrow> qemu_wire list \<Rightarrow> nat \<Rightarrow> bool \<Rightarrow> bool result" where
  "conflict_walk s wires i True = returns True"
| "conflict_walk s wires 0 False = returns False"
| "conflict_walk s wires (Suc i) False =
     bind_r (VECTOR_AT wires i) (\<lambda>wire.
       case wire of
         None \<Rightarrow> conflict_walk s wires i False
       | Some _ \<Rightarrow> bind_r (wire_at s wire) (\<lambda>(w, W). conflict_walk s wires i (w_is_conflict W)))"

text \<open>The user handler of a composite listener is a function pointer as well; \<open>mcb\<close>
  gives the meaning of calling it.  \<open>opaque\<close> is the address of the
  \<open>struct multi_listener\<close>.\<close>

type_synonym multi_callback =
  "nat \<Rightarrow> nat \<Rightarrow> 32 word \<Rightarrow> 32 word \<Rightarrow> nat \<Rightarrow> qemu_wire list \<Rightarrow> state \<Rightarrow> state result"

definition multi_handler :: "multi_callback \<Rightarrow> nat \<Rightarrow> qemu_wire \<Rightarrow> state \<Rightarrow> state result" where
  "multi_handler mcb opaque wire s =
     (case multi_heap s opaque of
        None \<Rightarrow> faults Bad_pointer
      | Some ml \<Rightarrow>
          bind_r (conflict_walk s (ml_wires ml) (ml_n ml) False) (\<lambda>in_conflict.
            if in_conflict \<and> ml_in_conflict ml then returns s
            else
              bind_r (qemu_wire_multi_sense (ml_wires ml) (ml_n ml) s) (\<lambda>(v, weakest_strength).
                let changed =
                      (in_conflict \<noteq> ml_in_conflict ml) \<or>
                      (weakest_strength = 0 \<and> ml_weakest_strength ml \<noteq> 0) \<or>
                      (weakest_strength \<noteq> 0 \<and> ml_weakest_strength ml = 0) \<or>
                      (weakest_strength \<noteq> 0 \<and> (v \<noteq> ml_value ml \<or> ml_n ml > 32))
                in if changed then
                     mcb (ml_handler ml) (ml_opaque ml) v weakest_strength (ml_n ml) (ml_wires ml)
                       (log_event (Ev_multi_handler (ml_handler ml) (ml_opaque ml) v weakest_strength (ml_n ml))
                          (s\<lparr>multi_heap := (multi_heap s)(opaque \<mapsto>
                                ml\<lparr>ml_weakest_strength := weakest_strength,
                                   ml_value := v,
                                   ml_in_conflict := in_conflict\<rparr>)\<rparr>))
                   else returns s)))"

subsection \<open>Allocation and release\<close>

text \<open>
  \<open>object_new_with_type\<close>, \<open>object_unref\<close> and \<open>g_malloc\<close> belong to the object
  system and to glib, and are parameters here: \<open>new\<close> is the pointer the allocator
  returns (\<open>NULL\<close> when it has no memory), \<open>obj\<close> the object as the allocator
  initialised it, and \<open>unref\<close> the effect of \<open>object_unref\<close> on the state.
\<close>

definition qemu_allocate_wire ::
  "qemu_wire \<Rightarrow> WireState \<Rightarrow> state \<Rightarrow> (qemu_wire \<times> state) result" where
  "qemu_allocate_wire new obj s =
     (case new of
        None \<Rightarrow> returns (None, s)
      | Some a \<Rightarrow> returns (Some a, put_wire a (obj\<lparr>w_intrinsic := WIRE_INTRINSIC_DEFAULT\<rparr>) s))"

definition qemu_allocate_wiredriver ::
  "qemu_wiredriver \<Rightarrow> WireDriverState \<Rightarrow> qemu_wire \<Rightarrow> state \<Rightarrow>
   (qemu_wiredriver \<times> state) result" where
  "qemu_allocate_wiredriver new obj wire s =
     (let s1 = (case new of None \<Rightarrow> s | Some d \<Rightarrow> put_driver d obj s)
      in case wire of
           None \<Rightarrow> returns (new, s1)
         | Some _ \<Rightarrow> bind_r (qemu_wire_attach wire new s1) (\<lambda>s2. returns (new, s2)))"

text \<open>\<open>wire_clear\<close>, first loop: \<open>while (VECTOR_LEN(wire->attachments))\<close> detach the
  driver of the last attachment.  The detach runs listeners, which may attach again.\<close>

partial_function (option) wire_clear_attachments ::
  "callback \<Rightarrow> qemu_wire \<Rightarrow> state \<Rightarrow> state result" where
  "wire_clear_attachments cb wire s =
     (case wire_at s wire of
        None \<Rightarrow> None
      | Some (Inl e) \<Rightarrow> faults e
      | Some (Inr (w, W)) \<Rightarrow>
          if w_attachments W = [] then returns s
          else
            (case qemu_wire_detach cb wire (last (w_attachments W)) s of
               None \<Rightarrow> None
             | Some (Inl e) \<Rightarrow> faults e
             | Some (Inr s') \<Rightarrow> wire_clear_attachments cb wire s'))"

text \<open>\<open>wire_clear\<close>, second loop: \<open>while (VECTOR_LEN(wire->listeners))\<close> unlisten the
  last listener.\<close>

function wire_clear_listeners :: "qemu_wire \<Rightarrow> state \<Rightarrow> state result" where
  "wire_clear_listeners wire s =
     (case wire_at s wire of
        None \<Rightarrow> None
      | Some (Inl e) \<Rightarrow> faults e
      | Some (Inr (w, W)) \<Rightarrow>
          if w_listeners W = [] then returns s
          else
            (case qemu_wire_unlisten wire (l_handler (last (w_listeners W)))
                    (l_opaque (last (w_listeners W))) s of
               None \<Rightarrow> None
             | Some (Inl e) \<Rightarrow> faults e
             | Some (Inr s') \<Rightarrow> wire_clear_listeners wire s'))"
  by pat_completeness auto


termination wire_clear_listeners
proof (relation "measure (\<lambda>(wire, s). case wire of None \<Rightarrow> 0
          | Some w \<Rightarrow> (case wire_heap s w of None \<Rightarrow> 0 | Some W \<Rightarrow> length (w_listeners W)))")
  show "wf (measure (\<lambda>(wire, s). case wire of None \<Rightarrow> 0
          | Some w \<Rightarrow> (case wire_heap s w of None \<Rightarrow> 0 | Some W \<Rightarrow> length (w_listeners W))))"
    by simp
next
  fix wire s x2 b x y x2a s'
  assume a: "wire_at s wire = Some x2" "x2 = Inr b" "(x, y) = b" "w_listeners y \<noteq> []"
    "qemu_wire_unlisten wire (l_handler (last (w_listeners y))) (l_opaque (last (w_listeners y))) s
       = Some x2a" "x2a = Inr s'"
  let ?P = "\<lambda>lis. l_handler lis = l_handler (last (w_listeners y)) \<and>
                   l_opaque lis = l_opaque (last (w_listeners y))"
  have "find_last ?P (w_listeners y) (length (w_listeners y)) = Some (length (w_listeners y) - 1)"
    using a(4) by (cases "w_listeners y" rule: rev_cases) simp_all
  then have shorter: "length (del_last_match ?P (w_listeners y)) < length (w_listeners y)"
    using a(4) by (simp add: del_last_match_def vector_del_def)
  from a(1,2,3) obtain w where wire: "wire = Some w" and W: "wire_heap s w = Some y"
    by (auto simp: wire_at_def split: option.splits)
  from a(5,6) wire W have "wire_heap s' w =
      Some (y\<lparr>w_listeners := del_last_match ?P (w_listeners y),
              w_listeners_slack := del_last_match_slack ?P (w_listeners y) (w_listeners_slack y)\<rparr>)"
    by (auto simp: qemu_wire_unlisten_def bind_r_def wire_at_def put_wire_def)
  with wire W shorter
  show "((wire, s'), (wire, s)) \<in> measure (\<lambda>(wire, s). case wire of None \<Rightarrow> 0
          | Some w \<Rightarrow> (case wire_heap s w of None \<Rightarrow> 0 | Some W \<Rightarrow> length (w_listeners W)))"
    by simp
qed

definition wire_clear :: "callback \<Rightarrow> qemu_wire \<Rightarrow> state \<Rightarrow> state result" where
  "wire_clear cb wire s = bind_r (wire_clear_attachments cb wire s) (wire_clear_listeners wire)"

definition qemu_free_wire ::
  "callback \<Rightarrow> (qemu_wire \<Rightarrow> state \<Rightarrow> state result) \<Rightarrow> qemu_wire \<Rightarrow> state \<Rightarrow> state result" where
  "qemu_free_wire cb unref wire s =
     (case wire of
        None \<Rightarrow> returns s
      | Some _ \<Rightarrow> bind_r (wire_clear cb wire s) (unref wire))"

text \<open>\<open>wiredriver_clear\<close>: \<open>for (i = VECTOR_LEN(driver->wires); i--; )\<close> detach the
  driver from the wire in slot \<open>i\<close>.  Each detach removes an element of the vector and
  runs listeners, so the slot is read from the state the last detach left.\<close>

fun wiredriver_clear_walk :: "callback \<Rightarrow> qemu_wiredriver \<Rightarrow> nat \<Rightarrow> state \<Rightarrow> state result" where
  "wiredriver_clear_walk cb driver 0 s = returns s"
| "wiredriver_clear_walk cb driver (Suc i) s =
     bind_r (driver_at s driver) (\<lambda>(d, D).
     bind_r (VECTOR_SLOT (d_wires D) (d_wires_slack D) i) (\<lambda>wire.
     bind_r (qemu_wire_detach cb wire driver s) (\<lambda>s'.
       wiredriver_clear_walk cb driver i s')))"

definition wiredriver_clear :: "callback \<Rightarrow> qemu_wiredriver \<Rightarrow> state \<Rightarrow> state result" where
  "wiredriver_clear cb driver s =
     bind_r (driver_at s driver) (\<lambda>(d, D).
       wiredriver_clear_walk cb driver (length (d_wires D)) s)"

definition qemu_free_wiredriver ::
  "callback \<Rightarrow> (qemu_wiredriver \<Rightarrow> state \<Rightarrow> state result) \<Rightarrow> qemu_wiredriver \<Rightarrow> state \<Rightarrow>
   state result" where
  "qemu_free_wiredriver cb unref driver s =
     (case driver of
        None \<Rightarrow> returns s
      | Some _ \<Rightarrow> bind_r (wiredriver_clear cb driver s) (unref driver))"

subsection \<open>Registering a composite listener\<close>

text \<open>The handler of a listener is a function pointer, a number in the model; this one
  stands for the address of the static function \<open>multi_handler\<close>.\<close>

definition multi_handler_ptr :: nat where
  "multi_handler_ptr = 0"

text \<open>
  The loop of \<open>qemu_wire_multi_listen\<close>: \<open>ml->wires[i] = wires[i]\<close>, then the wire gets
  the listener \<open>(multi_handler, ml)\<close>.  \<open>wires\<close> is the caller's array, \<open>ml\<close> the
  address of the new \<open>struct multi_listener\<close>, and \<open>ml_wires\<close> holds the slots of
  \<open>ml->wires\<close> written so far, which are those below \<open>i\<close>.
\<close>

function multi_listen_walk :: "qemu_wire list \<Rightarrow> nat \<Rightarrow> nat \<Rightarrow> nat \<Rightarrow> state \<Rightarrow> state result" where
  "multi_listen_walk wires n ml i s =
     (if i < n then
        bind_r (VECTOR_AT wires i) (\<lambda>wire.
          case multi_heap s ml of
            None \<Rightarrow> faults Bad_pointer
          | Some M \<Rightarrow>
              bind_r (qemu_wire_listen wire multi_handler_ptr ml
                        (s\<lparr>multi_heap := (multi_heap s)(ml \<mapsto> M\<lparr>ml_wires := ml_wires M @ [wire]\<rparr>)\<rparr>))
                (\<lambda>s'. multi_listen_walk wires n ml (i + 1) s'))
      else returns s)"
  by pat_completeness auto
termination
  by (relation "measure (\<lambda>(wires, n, ml, i, s). n - i)") auto

text \<open>\<open>qemu_wire_multi_listen\<close>.  \<open>new\<close> is what \<open>g_malloc\<close> returns and \<open>junk\<close> what
  the field \<open>value\<close> of the new block holds, which the function does not initialise.\<close>

definition qemu_wire_multi_listen ::
  "nat option \<Rightarrow> 32 word \<Rightarrow> qemu_wire list \<Rightarrow> nat \<Rightarrow> nat \<Rightarrow> nat \<Rightarrow> state \<Rightarrow>
   (nat option \<times> state) result" where
  "qemu_wire_multi_listen new junk wires n handler opaque s =
     (if n = 0 then returns (None, s)
      else
        (case new of
           None \<Rightarrow> returns (None, s)
         | Some ml \<Rightarrow>
             bind_r (multi_listen_walk wires n ml 0
                       (s\<lparr>multi_heap := (multi_heap s)(ml \<mapsto>
                            \<lparr>ml_handler = handler, ml_opaque = opaque, ml_n = n, ml_value = junk,
                             ml_weakest_strength = STRENGTH_HI_Z, ml_in_conflict = False,
                             ml_wires = []\<rparr>)\<rparr>))
               (\<lambda>s'. returns (Some ml, s'))))"

text \<open>\<open>qemu_wire_multi_unlisten\<close>: the loop over \<open>ml->wires\<close>, which nothing writes
  meanwhile, so \<open>ml->n\<close> and \<open>ml->wires\<close> are read once.\<close>

function multi_unlisten_walk :: "qemu_wire list \<Rightarrow> nat \<Rightarrow> nat \<Rightarrow> nat \<Rightarrow> state \<Rightarrow> state result" where
  "multi_unlisten_walk wires n ml i s =
     (if i < n then
        bind_r (VECTOR_AT wires i) (\<lambda>wire.
        bind_r (qemu_wire_unlisten wire multi_handler_ptr ml s) (\<lambda>s'.
          multi_unlisten_walk wires n ml (i + 1) s'))
      else returns s)"
  by pat_completeness auto
termination
  by (relation "measure (\<lambda>(wires, n, ml, i, s). n - i)") auto

definition qemu_wire_multi_unlisten :: "nat option \<Rightarrow> state \<Rightarrow> state result" where
  "qemu_wire_multi_unlisten token s =
     (case token of
        None \<Rightarrow> returns s
      | Some ml \<Rightarrow>
          (case multi_heap s ml of
             None \<Rightarrow> faults Bad_pointer
           | Some M \<Rightarrow> multi_unlisten_walk (ml_wires M) (ml_n M) ml 0 s))"

subsection \<open>The resolver as section 4.1 of the specification words it\<close>

text \<open>
  An attachment is read as the triple (strength, mode, value) of its driver.  The step
  follows the four bullet points of the reference algorithm, and the run starts from
  \<open>best = (HI_Z, Digital, 0)\<close>, \<open>conflict = false\<close>.
\<close>

type_synonym signal = "3 word \<times> 1 word \<times> 32 word"

definition signal_of :: "WireDriverState \<Rightarrow> signal" where
  "signal_of D = (d_strength D, d_value_mode D, d_value D)"

definition resolver_step_spec :: "signal \<times> bool \<Rightarrow> signal \<Rightarrow> signal \<times> bool" where
  "resolver_step_spec acc A =
     (case acc of (best, conflict) \<Rightarrow>
        if fst A = STRENGTH_HI_Z then (best, conflict)
        else if fst A < fst best then (best, conflict)
        else if fst A = fst best then
          (if conflict then (best, conflict)
           else if fst (snd A) \<noteq> fst (snd best) \<or> snd (snd A) \<noteq> snd (snd best)
             then (best, True)
           else (best, conflict))
        else (A, False))"

definition resolver_spec :: "signal list \<Rightarrow> signal \<times> bool" where
  "resolver_spec As = foldl resolver_step_spec ((STRENGTH_HI_Z, VALUE_MODE_D, 0), False) As"

text \<open>The cached state of a wire, as the tuple the specification speaks of.\<close>

definition resolved :: "WireState \<Rightarrow> signal \<times> bool" where
  "resolved W = ((w_strength W, w_value_mode W, w_value W), w_is_conflict W)"

definition attached_to :: "state \<Rightarrow> qemu_wiredriver \<Rightarrow> WireDriverState \<Rightarrow> bool" where
  "attached_to s p D = (case p of None \<Rightarrow> False | Some d \<Rightarrow> driver_heap s d = Some D)"


subsection \<open>Auxiliary notions for the resolver proofs\<close>

definition drive_signal :: "qemu_wire_drive \<Rightarrow> signal" where
  "drive_signal b = (wd_strength b, wd_value_mode b, wd_value b)"

definition with_signal :: "qemu_wire_drive \<Rightarrow> signal \<Rightarrow> qemu_wire_drive" where
  "with_signal b A = b\<lparr>wd_strength := fst A, wd_value_mode := fst (snd A), wd_value := snd (snd A)\<rparr>"

definition signal_init :: signal where
  "signal_init = (STRENGTH_HI_Z, VALUE_MODE_D, 0)"

text \<open>What a run of the resolver over the signals \<open>S\<close> establishes, whatever the order:
  the best strength bounds every strength, the best signal is the initial one or a driven
  member of \<open>S\<close>, and the conflict flag says that some driven member of the strongest
  tier differs from the best signal in mode or value.\<close>

definition resolver_inv :: "signal set \<Rightarrow> signal \<times> bool \<Rightarrow> bool" where
  "resolver_inv S r =
     ((\<forall>A\<in>S. fst A \<le> fst (fst r)) \<and>
      (fst r = signal_init \<or> (fst r \<in> S \<and> fst (fst r) \<noteq> 0)) \<and>
      (snd r \<longleftrightarrow> (\<exists>A\<in>S. fst A = fst (fst r) \<and> fst A \<noteq> 0 \<and> snd A \<noteq> snd (fst r))))"

text \<open>The resolved tuple of wire \<open>w\<close> after a call, when the call returned.\<close>

definition resolved_after :: "state result \<Rightarrow> nat \<Rightarrow> (signal \<times> bool) option" where
  "resolved_after r w =
     (case r of Some (Inr s') \<Rightarrow> map_option resolved (wire_heap s' w) | _ \<Rightarrow> None)"

subsection \<open>Example objects\<close>

text \<open>A wire as \<open>qemu_allocate_wire\<close> leaves it (zero-filled, default intrinsic) with the
  given attachments and listeners, and a driver holding the given drive state.  Their
  vectors are as appends alone leave them.\<close>

definition mk_wire :: "qemu_wiredriver list \<Rightarrow> wire_listener list \<Rightarrow> WireState" where
  "mk_wire atts lis =
     \<lparr>w_intrinsic = WIRE_INTRINSIC_DEFAULT, w_attachments = atts, w_listeners = lis,
      w_listeners_slack = vector_grow_slack (length lis),
      w_value = 0, w_strength = STRENGTH_HI_Z, w_value_mode = VALUE_MODE_D,
      w_is_conflict = False, w_changed = False, w_in_callback = False,
      w_driver_changed = False\<rparr>"

definition mk_driver :: "qemu_wire list \<Rightarrow> 3 word \<Rightarrow> 1 word \<Rightarrow> 32 word \<Rightarrow> WireDriverState" where
  "mk_driver ws st m v =
     \<lparr>d_wires = ws, d_wires_slack = vector_grow_slack (length ws), d_value = v,
      d_strength = st, d_value_mode = m, d_changed = False\<rparr>"

text \<open>Wire 0 with two attached drivers of strength PULL that disagree: driver 1 drives
  digital 1, driver 2 digital 0.  The cached state of the wire is still the initial one.
  \<open>tie_state_swapped\<close> is the same with the two attachments in the other order.\<close>

definition tie_state :: state where
  "tie_state =
     \<lparr>wire_heap = [0 \<mapsto> mk_wire [Some 1, Some 2] []],
      driver_heap = [1 \<mapsto> mk_driver [Some 0] STRENGTH_PULL VALUE_MODE_D 1,
                     2 \<mapsto> mk_driver [Some 0] STRENGTH_PULL VALUE_MODE_D 0],
      multi_heap = Map.empty, trace = []\<rparr>"

definition tie_state_swapped :: state where
  "tie_state_swapped = put_wire 0 (mk_wire [Some 2, Some 1] []) tie_state"

text \<open>A state with the single wire 0, no driver attached.\<close>

definition null_state :: state where
  "null_state =
     \<lparr>wire_heap = [0 \<mapsto> mk_wire [] []],
      driver_heap = Map.empty, multi_heap = Map.empty, trace = []\<rparr>"

text \<open>Scenario S2 of the specification: a wire with the default intrinsic value, driven
  to the analogue value 12345 at strength PULL.\<close>

definition analogue_wire :: WireState where
  "analogue_wire = (mk_wire [Some 1] [])\<lparr>w_value := 12345, w_strength := STRENGTH_PULL,
                      w_value_mode := VALUE_MODE_A\<rparr>"

definition analogue_state :: state where
  "analogue_state =
     \<lparr>wire_heap = [0 \<mapsto> analogue_wire],
      driver_heap = [1 \<mapsto> mk_driver [Some 0] STRENGTH_PULL VALUE_MODE_A 12345],
      multi_heap = Map.empty, trace = []\<rparr>"

text \<open>The wire of \<open>tie_state\<close> once resolved (in conflict), watched by a composite
  listener at address 7 whose snapshot already records the conflict.\<close>

definition conflicted_state :: state where
  "conflicted_state =
     \<lparr>wire_heap = [0 \<mapsto> (mk_wire [Some 1, Some 2] [])\<lparr>w_strength := STRENGTH_PULL,
                                                        w_is_conflict := True\<rparr>],
      driver_heap = [1 \<mapsto> mk_driver [Some 0] STRENGTH_PULL VALUE_MODE_D 1,
                     2 \<mapsto> mk_driver [Some 0] STRENGTH_PULL VALUE_MODE_D 0],
      multi_heap = [7 \<mapsto> \<lparr>ml_handler = 3, ml_opaque = 0, ml_n = 1, ml_value = 0,
                            ml_weakest_strength = STRENGTH_PULL, ml_in_conflict = True,
                            ml_wires = [Some 0]\<rparr>],
      trace = []\<rparr>"

text \<open>Every pointer stored in the graph is the address of a live object.\<close>

definition well_formed :: "state \<Rightarrow> bool" where
  "well_formed s \<longleftrightarrow>
     (\<forall>d D. driver_heap s d = Some D \<longrightarrow>
        (\<forall>p\<in>set (d_wires D). \<exists>w. p = Some w \<and> w \<in> dom (wire_heap s))) \<and>
     (\<forall>w W. wire_heap s w = Some W \<longrightarrow>
        (\<forall>q\<in>set (w_attachments W). \<exists>d. q = Some d \<and> d \<in> dom (driver_heap s)))"

text \<open>The wire \<open>wire_update\<close> stores, given the driver store (for valid attachments).\<close>

definition resolve :: "(nat \<rightharpoonup> WireDriverState) \<Rightarrow> WireState \<Rightarrow> WireState" where
  "resolve h W =
     (let r = resolver_spec (rev (map (\<lambda>p. signal_of (the (h (the p)))) (w_attachments W)))
      in wire_commit W (with_signal best_init (fst r)) (snd r))"

text \<open>What one sweep of \<open>wire_call_listeners\<close> over quiet listeners logs.\<close>

definition handler_events :: "nat \<Rightarrow> wire_listener list \<Rightarrow> event list" where
  "handler_events w ls = map (\<lambda>l. Ev_handler (l_handler l) (l_opaque l) w) ls"

definition sweep_events :: "nat \<Rightarrow> WireState \<Rightarrow> event list" where
  "sweep_events w W =
     (if w_in_callback W then [Ev_diagnostic w] else []) @ [Ev_call_listeners w] @
     handler_events w (rev (w_listeners W))"

definition log_events :: "event list \<Rightarrow> state \<Rightarrow> state" where
  "log_events es s = s\<lparr>trace := trace s @ es\<rparr>"

text \<open>The wire an event is about.\<close>

fun ev_wire :: "event \<Rightarrow> nat" where
  "ev_wire (Ev_wire_update w) = w"
| "ev_wire (Ev_call_listeners w) = w"
| "ev_wire (Ev_diagnostic w) = w"
| "ev_wire (Ev_handler h q w) = w"
| "ev_wire (Ev_multi_handler h q v st n) = 0"

text \<open>The effect of phase 2 and of phase 3 on one wire, and of phase 3 on one driver.\<close>

definition upd_wire :: "(nat \<rightharpoonup> WireDriverState) \<Rightarrow> WireState \<Rightarrow> WireState" where
  "upd_wire h W = (if w_driver_changed W then (resolve h W)\<lparr>w_driver_changed := False\<rparr> else W)"

definition clr_wire :: "WireState \<Rightarrow> WireState" where
  "clr_wire W = (if w_changed W then W\<lparr>w_changed := False, w_in_callback := False\<rparr> else W)"

text \<open>How often an event will be logged once its wire is updated (phase 2), or swept
  (phase 3), from the given state.\<close>

definition pending_update :: "state \<Rightarrow> event \<Rightarrow> nat" where
  "pending_update s e =
     (case e of
        Ev_wire_update w \<Rightarrow>
          (case wire_heap s w of Some W \<Rightarrow> (if w_driver_changed W then 1 else 0) | None \<Rightarrow> 0)
      | _ \<Rightarrow> 0)"

definition pending_sweep :: "state \<Rightarrow> event \<Rightarrow> nat" where
  "pending_sweep s e =
     (case wire_heap s (ev_wire e) of
        Some W \<Rightarrow> (if w_changed W then count_list (sweep_events (ev_wire e) W) e else 0)
      | None \<Rightarrow> 0)"

text \<open>\<open>feeds h d w\<close>: wire \<open>w\<close> is in \<open>driver->wires\<close> of driver \<open>d\<close>; \<open>dirty h d\<close>: its
  \<open>changed\<close> flag is set; \<open>cov h wds w\<close>: some descriptor names a dirty driver that feeds
  \<open>w\<close>, so phases 2 and 3 reach \<open>w\<close>.\<close>

definition feeds :: "(nat \<rightharpoonup> WireDriverState) \<Rightarrow> nat \<Rightarrow> nat \<Rightarrow> bool" where
  "feeds h d w = (case h d of Some D \<Rightarrow> Some w \<in> set (d_wires D) | None \<Rightarrow> False)"

definition dirty :: "(nat \<rightharpoonup> WireDriverState) \<Rightarrow> nat \<Rightarrow> bool" where
  "dirty h d = (case h d of Some D \<Rightarrow> d_changed D | None \<Rightarrow> False)"

definition cov :: "(nat \<rightharpoonup> WireDriverState) \<Rightarrow> qemu_wire_drive list \<Rightarrow> nat \<Rightarrow> bool" where
  "cov h wds w = (\<exists>wd\<in>set wds. \<exists>d. wd_driver wd = Some d \<and> dirty h d \<and> feeds h d w)"

text \<open>Every descriptor names \<open>NULL\<close> or a live driver.\<close>

definition valid_drives :: "state \<Rightarrow> qemu_wire_drive list \<Rightarrow> bool" where
  "valid_drives s wds =
     (\<forall>wd\<in>set wds. wd_driver wd = None \<or> (\<exists>d. wd_driver wd = Some d \<and> d \<in> dom (driver_heap s)))"

definition clr_driver :: "WireDriverState \<Rightarrow> WireDriverState" where
  "clr_driver D = D\<lparr>d_changed := False\<rparr>"

text \<open>Phase 1 on the driver store alone: the test for an unchanged descriptor, the write,
  the resulting store, and the set of drivers the phase writes.\<close>

definition same_drive :: "WireDriverState \<Rightarrow> qemu_wire_drive \<Rightarrow> bool" where
  "same_drive D wd \<longleftrightarrow>
     d_strength D = wd_strength wd \<and> d_value_mode D = wd_value_mode wd \<and> d_value D = wd_value wd"

definition write_drive :: "WireDriverState \<Rightarrow> qemu_wire_drive \<Rightarrow> WireDriverState" where
  "write_drive D wd =
     D\<lparr>d_strength := wd_strength wd, d_value_mode := wd_value_mode wd,
       d_value := wd_value wd, d_changed := True\<rparr>"

fun apply_drivers ::
  "qemu_wire_drive list \<Rightarrow> (nat \<rightharpoonup> WireDriverState) \<Rightarrow> (nat \<rightharpoonup> WireDriverState)" where
  "apply_drivers [] h = h"
| "apply_drivers (wd # wds) h =
     (case wd_driver wd of
        None \<Rightarrow> apply_drivers wds h
      | Some d \<Rightarrow>
          (case h d of
             None \<Rightarrow> apply_drivers wds h
           | Some D \<Rightarrow>
               if same_drive D wd then apply_drivers wds h
               else apply_drivers wds (h(d \<mapsto> write_drive D wd))))"

fun written :: "qemu_wire_drive list \<Rightarrow> (nat \<rightharpoonup> WireDriverState) \<Rightarrow> nat set" where
  "written [] h = {}"
| "written (wd # wds) h =
     (case wd_driver wd of
        None \<Rightarrow> written wds h
      | Some d \<Rightarrow>
          (case h d of
             None \<Rightarrow> written wds h
           | Some D \<Rightarrow>
               if same_drive D wd then written wds h
               else insert d (written wds (h(d \<mapsto> write_drive D wd)))))"

definition mark_wire :: "WireState \<Rightarrow> WireState" where
  "mark_wire W = W\<lparr>w_driver_changed := True\<rparr>"

text \<open>The transient flags are all clear: invariant (I3) of the specification.\<close>

definition settled :: "state \<Rightarrow> bool" where
  "settled s \<longleftrightarrow>
     (\<forall>w W. wire_heap s w = Some W \<longrightarrow>
        \<not> w_changed W \<and> \<not> w_driver_changed W \<and> \<not> w_in_callback W) \<and>
     (\<forall>d D. driver_heap s d = Some D \<longrightarrow> \<not> d_changed D)"

text \<open>\<open>fed_by_written wds s w\<close>: phase 1 of the batch \<open>wds\<close>, run from \<open>s\<close>, writes a
  driver that feeds wire \<open>w\<close>.\<close>

definition fed_by_written :: "qemu_wire_drive list \<Rightarrow> state \<Rightarrow> nat \<Rightarrow> bool" where
  "fed_by_written wds s w \<longleftrightarrow> (\<exists>d\<in>written wds (driver_heap s). feeds (driver_heap s) d w)"

text \<open>The change predicate of section 4.1 without its first disjunct.\<close>

definition observable_change :: "WireState \<Rightarrow> WireState \<Rightarrow> bool" where
  "observable_change old new \<longleftrightarrow>
     w_is_conflict new \<noteq> w_is_conflict old \<or>
     (w_strength old \<noteq> STRENGTH_HI_Z \<and> w_strength new = STRENGTH_HI_Z) \<or>
     (w_strength old = STRENGTH_HI_Z \<and> w_strength new \<noteq> STRENGTH_HI_Z) \<or>
     (w_strength new \<noteq> STRENGTH_HI_Z \<and>
        (w_value_mode new \<noteq> w_value_mode old \<or> w_value new \<noteq> w_value old))"

text \<open>Wires 0, 1 and 2 are all fed by driver 3, which is at HI_Z; wire 1 has one listener.\<close>

definition sister_state :: state where
  "sister_state =
     \<lparr>wire_heap = [0 \<mapsto> mk_wire [Some 3] [],
                   1 \<mapsto> mk_wire [Some 3] [\<lparr>l_handler = 9, l_opaque = 0\<rparr>],
                   2 \<mapsto> mk_wire [Some 3] []],
      driver_heap = [3 \<mapsto> mk_driver [Some 0, Some 1, Some 2] STRENGTH_HI_Z VALUE_MODE_D 0],
      multi_heap = Map.empty, trace = []\<rparr>"

text \<open>A handler that detaches driver 3 from wire 0.  The detach it calls is given a
  callback that never returns, so a result of the whole run shows that the nested call
  invoked no listener.\<close>

definition detaching_listener :: callback where
  "detaching_listener handler opaque wire s =
     qemu_wire_detach (\<lambda>h q w t. None) (Some 0) (Some 3) s"

text \<open>The output of the resolver of section 4.1 over the attachments of a wire, read in
  the given state in the order of the code.\<close>

definition resolver_output :: "state \<Rightarrow> WireState \<Rightarrow> signal \<times> bool" where
  "resolver_output s W =
     resolver_spec (rev (map (\<lambda>p. signal_of (the (driver_heap s (the p)))) (w_attachments W)))"

text \<open>Wire 0 has a listener and two drivers: driver 1 drives digital 1 at strength STRONG,
  driver 2 is at HI_Z.  The wire caches (STRONG, Digital, 1).\<close>

definition shadow_state :: state where
  "shadow_state =
     \<lparr>wire_heap = [0 \<mapsto> (mk_wire [Some 1, Some 2] [\<lparr>l_handler = 9, l_opaque = 0\<rparr>])
                           \<lparr>w_value := 1, w_strength := STRENGTH_STRONG\<rparr>],
      driver_heap = [1 \<mapsto> mk_driver [Some 0] STRENGTH_STRONG VALUE_MODE_D 1,
                     2 \<mapsto> mk_driver [Some 0] STRENGTH_HI_Z VALUE_MODE_D 0],
      multi_heap = Map.empty, trace = []\<rparr>"

definition shadow_batch :: "qemu_wire_drive list" where
  "shadow_batch =
     [\<lparr>wd_driver = Some 1, wd_value = 1, wd_strength = STRENGTH_STRONG, wd_value_mode = VALUE_MODE_D\<rparr>,
      \<lparr>wd_driver = Some 2, wd_value = 0, wd_strength = STRENGTH_WEAK, wd_value_mode = VALUE_MODE_D\<rparr>]"

text \<open>Wire 0, with one listener, is driven by driver 1 alone to digital 1 at strength
  PULL.  \<open>pull_batch\<close> steps the driver to STRONG with the same value, and
  \<open>pull_after\<close> is the state the batch leaves.\<close>

definition pull_state :: state where
  "pull_state =
     \<lparr>wire_heap = [0 \<mapsto> (mk_wire [Some 1] [\<lparr>l_handler = 9, l_opaque = 0\<rparr>])
                           \<lparr>w_value := 1, w_strength := STRENGTH_PULL\<rparr>],
      driver_heap = [1 \<mapsto> mk_driver [Some 0] STRENGTH_PULL VALUE_MODE_D 1],
      multi_heap = Map.empty, trace = []\<rparr>"

definition pull_batch :: "qemu_wire_drive list" where
  "pull_batch =
     [\<lparr>wd_driver = Some 1, wd_value = 1, wd_strength = STRENGTH_STRONG, wd_value_mode = VALUE_MODE_D\<rparr>]"


text \<open>The public operations of the library that the invariant speaks of, as values, and
  their dispatch.  The sense operations read the state and leave it as it is.\<close>

datatype operation =
    Op_attach qemu_wire qemu_wiredriver
  | Op_detach qemu_wire qemu_wiredriver
  | Op_drive qemu_wiredriver "32 word" bool
  | Op_drive_a qemu_wiredriver "32 word" "32 word"
  | Op_drive_z qemu_wiredriver
  | Op_multi_drive "qemu_wire_drive list"
  | Op_listen qemu_wire nat nat
  | Op_unlisten qemu_wire nat nat
  | Op_sense qemu_wire
  | Op_sense_a qemu_wire
  | Op_sense_strength qemu_wire
  | Op_sense_conflicted qemu_wire

fun run_op :: "callback \<Rightarrow> operation \<Rightarrow> state \<Rightarrow> state result" where
  "run_op cb (Op_attach wire driver) s = qemu_wire_attach wire driver s"
| "run_op cb (Op_detach wire driver) s = qemu_wire_detach cb wire driver s"
| "run_op cb (Op_drive driver strength dval) s = qemu_wire_drive cb driver strength dval s"
| "run_op cb (Op_drive_a driver strength aval) s = qemu_wire_drive_a cb driver strength aval s"
| "run_op cb (Op_drive_z driver) s = qemu_wire_drive_z cb driver s"
| "run_op cb (Op_multi_drive drives) s = qemu_wire_multi_drive cb drives s"
| "run_op cb (Op_listen wire handler opaque) s = qemu_wire_listen wire handler opaque s"
| "run_op cb (Op_unlisten wire handler opaque) s = qemu_wire_unlisten wire handler opaque s"
| "run_op cb (Op_sense wire) s = bind_r (qemu_wire_sense wire s) (\<lambda>r. returns s)"
| "run_op cb (Op_sense_a wire) s = bind_r (qemu_wire_sense_a wire s) (\<lambda>r. returns s)"
| "run_op cb (Op_sense_strength wire) s = bind_r (qemu_wire_sense_strength wire s) (\<lambda>r. returns s)"
| "run_op cb (Op_sense_conflicted wire) s =
     bind_r (qemu_wire_sense_conflicted wire s) (\<lambda>r. returns s)"

text \<open>The arguments an operation accepts: a wire argument is \<open>NULL\<close> or a live wire, a
  driver argument is a live driver (or \<open>NULL\<close> for the drive operations, or when the
  wire is \<open>NULL\<close>).\<close>

definition live_wire :: "state \<Rightarrow> qemu_wire \<Rightarrow> bool" where
  "live_wire s wire = (case wire of None \<Rightarrow> False | Some w \<Rightarrow> wire_heap s w \<noteq> None)"

definition live_driver :: "state \<Rightarrow> qemu_wiredriver \<Rightarrow> bool" where
  "live_driver s driver = (case driver of None \<Rightarrow> False | Some d \<Rightarrow> driver_heap s d \<noteq> None)"

fun valid_op :: "state \<Rightarrow> operation \<Rightarrow> bool" where
  "valid_op s (Op_attach wire driver) = (wire = None \<or> live_wire s wire \<and> live_driver s driver)"
| "valid_op s (Op_detach wire driver) = (wire = None \<or> live_wire s wire \<and> live_driver s driver)"
| "valid_op s (Op_drive driver strength dval) = (driver = None \<or> live_driver s driver)"
| "valid_op s (Op_drive_a driver strength aval) = (driver = None \<or> live_driver s driver)"
| "valid_op s (Op_drive_z driver) = (driver = None \<or> live_driver s driver)"
| "valid_op s (Op_multi_drive drives) = valid_drives s drives"
| "valid_op s (Op_listen wire handler opaque) = (wire = None \<or> live_wire s wire)"
| "valid_op s (Op_unlisten wire handler opaque) = (wire = None \<or> live_wire s wire)"
| "valid_op s (Op_sense wire) = (wire = None \<or> live_wire s wire)"
| "valid_op s (Op_sense_a wire) = (wire = None \<or> live_wire s wire)"
| "valid_op s (Op_sense_strength wire) = (wire = None \<or> live_wire s wire)"
| "valid_op s (Op_sense_conflicted wire) = (wire = None \<or> live_wire s wire)"

text \<open>A state for the composite listener of two slots, the first \<open>NULL\<close>, the second
  wire 0, which carries its leaf listener.\<close>

definition null_multi_state :: state where
  "null_multi_state =
     \<lparr>wire_heap = [0 \<mapsto> mk_wire [] [\<lparr>l_handler = multi_handler_ptr, l_opaque = 7\<rparr>]],
      driver_heap = Map.empty,
      multi_heap = [7 \<mapsto> \<lparr>ml_handler = 3, ml_opaque = 0, ml_n = 2, ml_value = 0,
                            ml_weakest_strength = STRENGTH_HI_Z, ml_in_conflict = False,
                            ml_wires = [None, Some 0]\<rparr>],
      trace = []\<rparr>"

text \<open>The last descriptor of a batch that names driver \<open>d\<close>, if any.\<close>

fun last_drive :: "qemu_wire_drive list \<Rightarrow> nat \<Rightarrow> qemu_wire_drive option" where
  "last_drive [] d = None"
| "last_drive (wd # wds) d =
     (case last_drive wds d of
        Some x \<Rightarrow> Some x
      | None \<Rightarrow> (if wd_driver wd = Some d then Some wd else None))"



text \<open>Wire 0 with three listeners and a pending notification; handler 3 unregisters the
  listeners 2 and 3, the other handlers return at once.\<close>

definition three_state :: state where
  "three_state =
     \<lparr>wire_heap = [0 \<mapsto> (mk_wire [] [\<lparr>l_handler = 1, l_opaque = 0\<rparr>, \<lparr>l_handler = 2, l_opaque = 0\<rparr>,
                                      \<lparr>l_handler = 3, l_opaque = 0\<rparr>])\<lparr>w_changed := True\<rparr>],
      driver_heap = Map.empty, multi_heap = Map.empty, trace = []\<rparr>"

definition three_handlers :: callback where
  "three_handlers handler opaque wire s =
     (if handler = 3 then
        bind_r (qemu_wire_unlisten wire 2 0 s) (qemu_wire_unlisten wire 3 0)
      else returns s)"

section \<open>Properties\<close>

lemma bind_r_simps [simp]:
  "bind_r None f = None"
  "bind_r (faults e) f = faults e"
  "bind_r (returns x) f = f x"
  by (simp_all add: bind_r_def)

lemma bind_r_eq_returns:
  "bind_r m f = returns y \<longleftrightarrow> (\<exists>x. m = returns x \<and> f x = returns y)"
  by (auto simp: bind_r_def split: option.splits sum.splits)


subsection \<open>The walk of \<open>wire_update\<close> is a fold\<close>

lemma with_signal_same [simp]: "with_signal b (drive_signal b) = b"
  by (simp add: with_signal_def drive_signal_def)

lemma drive_signal_with [simp]: "drive_signal (with_signal b A) = A"
  by (simp add: with_signal_def drive_signal_def)

lemma with_signal_twice [simp]: "with_signal (with_signal b A) B = with_signal b B"
  by (simp add: with_signal_def)

lemma wire_update_walk_fold:
  assumes "list_all2 (attached_to s) atts Ds" and "n \<le> length atts"
  shows "wire_update_walk s atts n best c =
           returns (with_signal best (fst (foldl resolver_step_spec (drive_signal best, c) (rev (take n (map signal_of Ds))))),
                    snd (foldl resolver_step_spec (drive_signal best, c) (rev (take n (map signal_of Ds)))))"
  using assms(2)
proof (induction n arbitrary: best c)
  case 0
  then show ?case by simp
next
  case (Suc n)
  from assms(1) have len: "length Ds = length atts" by (simp add: list_all2_lengthD)
  from Suc.prems have n: "n < length atts" by simp
  with assms(1) have att: "attached_to s (atts ! n) (Ds ! n)"
    by (simp add: list_all2_nthD)
  then obtain d where d: "atts ! n = Some d" "driver_heap s d = Some (Ds ! n)"
    by (auto simp: attached_to_def split: option.splits)
  have tk: "rev (take (Suc n) (map signal_of Ds)) = signal_of (Ds ! n) # rev (take n (map signal_of Ds))"
    using n len by (simp add: take_Suc_conv_app_nth)
  have ih: "\<And>b c. wire_update_walk s atts n b c =
           returns (with_signal b (fst (foldl resolver_step_spec (drive_signal b, c) (rev (take n (map signal_of Ds))))),
                    snd (foldl resolver_step_spec (drive_signal b, c) (rev (take n (map signal_of Ds)))))"
    using Suc.IH n by simp
  show ?case
    unfolding tk
    using n d
    apply (simp add: VECTOR_AT_def driver_at_def ih)
    apply (simp add: resolver_step_spec_def signal_of_def drive_signal_def STRENGTH_HI_Z_def)
    apply (auto simp: with_signal_def)
    done
qed


lemma resolver_inv_step:
  assumes "resolver_inv S r"
  shows "resolver_inv (insert A S) (resolver_step_spec r A)"
proof (cases r)
  case (Pair best c)
  have ub: "\<forall>X\<in>S. fst X \<le> fst best"
    and mem: "best = signal_init \<or> (best \<in> S \<and> fst best \<noteq> 0)"
    and cf: "c \<longleftrightarrow> (\<exists>X\<in>S. fst X = fst best \<and> fst X \<noteq> 0 \<and> snd X \<noteq> snd best)"
    using assms unfolding resolver_inv_def Pair by simp_all
  have init0: "fst signal_init = 0" by (simp add: signal_init_def STRENGTH_HI_Z_def)
  consider (z) "fst A = 0" | (lt) "fst A \<noteq> 0" "fst A < fst best"
    | (eq) "fst A \<noteq> 0" "fst A = fst best" | (gt) "fst A \<noteq> 0" "fst best < fst A"
    using linorder_less_linear[of "fst A" "fst best"] by blast
  then show ?thesis
  proof cases
    case z
    then have st: "resolver_step_spec r A = (best, c)"
      by (simp add: resolver_step_spec_def Pair STRENGTH_HI_Z_def)
    show ?thesis unfolding st resolver_inv_def
      using ub mem cf z by auto
  next
    case lt
    then have st: "resolver_step_spec r A = (best, c)"
      by (simp add: resolver_step_spec_def Pair STRENGTH_HI_Z_def)
    from lt(2) have le: "fst A \<le> fst best" by (rule less_imp_le)
    from lt(2) have ne: "fst A \<noteq> fst best" by (rule less_imp_neq)
    show ?thesis unfolding st resolver_inv_def
      using ub mem cf lt(1) le ne by auto
  next
    case eq
    then have st: "resolver_step_spec r A = (best, c \<or> snd A \<noteq> snd best)"
      by (auto simp: resolver_step_spec_def Pair STRENGTH_HI_Z_def prod_eq_iff)
    from eq mem init0 have "best \<in> S" by auto
    then show ?thesis unfolding st resolver_inv_def
      using ub mem cf eq by auto
  next
    case gt
    then have st: "resolver_step_spec r A = (A, False)"
      by (auto simp: resolver_step_spec_def Pair STRENGTH_HI_Z_def)
    have "\<forall>X\<in>S. fst X < fst A" using ub gt by (meson le_less_trans)
    then show ?thesis unfolding st resolver_inv_def
      using gt by auto
  qed
qed

lemma resolver_spec_inv: "resolver_inv (set As) (resolver_spec As)"
proof (induction As rule: rev_induct)
  case Nil
  show ?case
    by (simp add: resolver_spec_def resolver_inv_def signal_init_def)
next
  case (snoc A As)
  have "resolver_spec (As @ [A]) = resolver_step_spec (resolver_spec As) A"
    by (simp add: resolver_spec_def)
  with resolver_inv_step[OF snoc.IH, of A] show ?case by simp
qed

lemma resolver_inv_unique:
  assumes "resolver_inv S r" and "resolver_inv S r'"
  shows "fst (fst r) = fst (fst r') \<and> snd r = snd r' \<and> (\<not> snd r \<longrightarrow> r = r')"
proof -
  obtain b c where r: "r = (b, c)" by (cases r)
  obtain b' c' where r': "r' = (b', c')" by (cases r')
  have ub: "\<forall>X\<in>S. fst X \<le> fst b"
    and mem: "b = signal_init \<or> (b \<in> S \<and> fst b \<noteq> 0)"
    and cf: "c \<longleftrightarrow> (\<exists>X\<in>S. fst X = fst b \<and> fst X \<noteq> 0 \<and> snd X \<noteq> snd b)"
    using assms(1) unfolding resolver_inv_def r by simp_all
  have ub': "\<forall>X\<in>S. fst X \<le> fst b'"
    and mem': "b' = signal_init \<or> (b' \<in> S \<and> fst b' \<noteq> 0)"
    and cf': "c' \<longleftrightarrow> (\<exists>X\<in>S. fst X = fst b' \<and> fst X \<noteq> 0 \<and> snd X \<noteq> snd b')"
    using assms(2) unfolding resolver_inv_def r' by simp_all
  have init0: "fst signal_init = 0" by (simp add: signal_init_def STRENGTH_HI_Z_def)
  have le: "fst b' \<le> fst b"
    using mem' ub init0 by (metis word_zero_le)
  have le': "fst b \<le> fst b'"
    using mem ub' init0 by (metis word_zero_le)
  from le le' have eq: "fst b = fst b'" by (rule antisym[rotated])
  show ?thesis
  proof (cases "fst b = 0")
    case True
    with mem have b: "b = signal_init" by blast
    from True eq mem' have b': "b' = signal_init" by metis
    from cf True have "\<not> c" by metis
    moreover from cf' True eq have "\<not> c'" by metis
    ultimately show ?thesis by (simp add: r r' b b')
  next
    case False
    with mem init0 have inS: "b \<in> S" by metis
    from False eq mem' init0 have inS': "b' \<in> S" by metis
    have "c = c'" using cf cf' inS inS' eq False by metis
    moreover have "\<not> c \<Longrightarrow> b = b'" using cf inS' eq False by (metis prod.expand)
    ultimately show ?thesis by (simp add: r r' eq)
  qed
qed


subsection \<open>C1: the resolver of \<open>wire_update\<close>\<close>

lemma wire_update_returns:
  assumes W: "wire_heap s w = Some W"
    and Ds: "list_all2 (attached_to s) (w_attachments W) Ds"
  shows "\<exists>s' W'. wire_update (Some w) s = returns s' \<and> wire_heap s' w = Some W' \<and>
           resolved W' = resolver_spec (rev (map signal_of Ds)) \<and>
           w_attachments W' = w_attachments W \<and>
           driver_heap s' = driver_heap s"
proof -
  from Ds have len: "length Ds = length (w_attachments W)" by (simp add: list_all2_lengthD)
  have walk: "wire_update_walk s (w_attachments W) (length (w_attachments W)) best_init False =
      returns (with_signal best_init (fst (resolver_spec (rev (map signal_of Ds)))),
               snd (resolver_spec (rev (map signal_of Ds))))"
    using wire_update_walk_fold[OF Ds le_refl, of best_init False] len
    by (simp add: resolver_spec_def drive_signal_def best_init_def)
  show ?thesis
    by (simp add: wire_update_def wire_at_def W walk put_wire_def log_event_def
        wire_commit_def resolved_def with_signal_def prod_eq_iff)
qed

text \<open>
  Claim C1.  Resolving a wire whose attachments point at the drivers \<open>Ds\<close> returns, and the
  cached tuple (strength, mode, value, conflict) it stores is the one the reference
  algorithm of section 4.1 computes when it visits the attachments in the order of the
  code, from the last attachment to the first: a HI_Z attachment and a weaker one are
  skipped, an equally strong one that differs in mode or value sets the conflict, an
  equally strong one that agrees changes nothing, a strictly stronger one becomes the
  best and clears the conflict.  With no attachment the tuple is (HI_Z, Digital, 0, no
  conflict).
\<close>

theorem wire_update_resolves:
  assumes "wire_heap s w = Some W"
    and "list_all2 (attached_to s) (w_attachments W) Ds"
  shows "\<exists>s' W'. wire_update (Some w) s = returns s' \<and> wire_heap s' w = Some W' \<and>
           resolved W' = resolver_spec (rev (map signal_of Ds)) \<and>
           (w_attachments W = [] \<longrightarrow>
              resolved W' = ((STRENGTH_HI_Z, VALUE_MODE_D, 0), False))"
proof -
  from wire_update_returns[OF assms] obtain s' W' where
    r: "wire_update (Some w) s = returns s'" "wire_heap s' w = Some W'"
       "resolved W' = resolver_spec (rev (map signal_of Ds))"
    by blast
  have "w_attachments W = [] \<Longrightarrow> Ds = []"
    using assms(2) by simp
  then have "w_attachments W = [] \<longrightarrow> resolved W' = ((STRENGTH_HI_Z, VALUE_MODE_D, 0), False)"
    using r(3) by (simp add: resolver_spec_def)
  with r show ?thesis by blast
qed

theorem wire_update_resolves_witness:
  "\<exists>s' W'. wire_update (Some 0) tie_state = returns s' \<and> wire_heap s' 0 = Some W' \<and>
     resolved W' = ((STRENGTH_PULL, VALUE_MODE_D, 0), True)"
proof -
  have h1: "wire_heap tie_state 0 = Some (mk_wire [Some 1, Some 2] [])"
    by (simp add: tie_state_def)
  have h2: "list_all2 (attached_to tie_state) (w_attachments (mk_wire [Some 1, Some 2] []))
              [mk_driver [Some 0] STRENGTH_PULL VALUE_MODE_D 1,
               mk_driver [Some 0] STRENGTH_PULL VALUE_MODE_D 0]"
    by (simp add: tie_state_def mk_wire_def attached_to_def)
  have "resolver_spec (rev (map signal_of
              [mk_driver [Some 0] STRENGTH_PULL VALUE_MODE_D 1,
               mk_driver [Some 0] STRENGTH_PULL VALUE_MODE_D 0])) =
          ((STRENGTH_PULL, VALUE_MODE_D, 0), True)"
    by (simp add: resolver_spec_def resolver_step_spec_def signal_of_def mk_driver_def
        STRENGTH_PULL_def STRENGTH_HI_Z_def VALUE_MODE_D_def)
  with wire_update_resolves[OF h1 h2] show ?thesis by auto
qed

subsection \<open>C2: the change predicate of \<open>wire_update\<close>\<close>

text \<open>
  Claim C2.  When \<open>wire_update\<close> returns on a wire with cached state \<open>old\<close>, the new
  cached state \<open>new\<close> has \<open>changed\<close> set exactly when it was set before, or the conflict
  flag differs, or the wire went to HI_Z, or it left HI_Z, or it is driven and its mode or
  value differs.  In particular a flag that was set stays set.
\<close>

theorem wire_update_changed:
  assumes "wire_heap s w = Some old"
    and "wire_update (Some w) s = returns s'"
  shows "\<exists>new. wire_heap s' w = Some new \<and>
           (w_changed new \<longleftrightarrow>
              w_changed old \<or>
              w_is_conflict new \<noteq> w_is_conflict old \<or>
              (w_strength old \<noteq> STRENGTH_HI_Z \<and> w_strength new = STRENGTH_HI_Z) \<or>
              (w_strength old = STRENGTH_HI_Z \<and> w_strength new \<noteq> STRENGTH_HI_Z) \<or>
              (w_strength new \<noteq> STRENGTH_HI_Z \<and>
                 (w_value_mode new \<noteq> w_value_mode old \<or> w_value new \<noteq> w_value old))) \<and>
           (w_changed old \<longrightarrow> w_changed new)"
proof -
  have eq: "wire_update (Some w) s =
      bind_r (wire_update_walk s (w_attachments old) (length (w_attachments old)) best_init False)
       (\<lambda>(best, is_conflict).
          returns (put_wire w (wire_commit old best is_conflict) (log_event (Ev_wire_update w) s)))"
    by (simp add: wire_update_def wire_at_def assms(1))
  from assms(2) obtain best c where
    s': "s' = put_wire w (wire_commit old best c) (log_event (Ev_wire_update w) s)"
    unfolding eq bind_r_eq_returns by auto
  show ?thesis
    unfolding s' by (auto simp: put_wire_def wire_commit_def STRENGTH_HI_Z_def)
qed

theorem wire_update_changed_witness:
  "\<exists>s' new. wire_update (Some 0) tie_state = returns s' \<and> wire_heap s' 0 = Some new \<and>
     w_changed new \<and> w_is_conflict new \<and> w_strength new = STRENGTH_PULL"
proof -
  have h1: "wire_heap tie_state 0 = Some (mk_wire [Some 1, Some 2] [])"
    by (simp add: tie_state_def)
  obtain s' where h2: "wire_update (Some 0) tie_state = returns s'"
    by (simp add: wire_update_def wire_at_def tie_state_def tie_state_swapped_def
      mk_wire_def mk_driver_def VECTOR_AT_def driver_at_def best_init_def put_wire_def
      log_event_def wire_commit_def STRENGTH_PULL_def STRENGTH_HI_Z_def VALUE_MODE_D_def)
  have h3: "resolved_after (wire_update (Some 0) tie_state) 0 =
      Some ((STRENGTH_PULL, VALUE_MODE_D, 0), True)"
    by (simp add: resolved_after_def resolved_def wire_update_def wire_at_def tie_state_def tie_state_swapped_def
      mk_wire_def mk_driver_def VECTOR_AT_def driver_at_def best_init_def put_wire_def
      log_event_def wire_commit_def STRENGTH_PULL_def STRENGTH_HI_Z_def VALUE_MODE_D_def)
  from wire_update_changed[OF h1 h2] h3 h2 show ?thesis
    by (auto simp: resolved_after_def resolved_def mk_wire_def
        STRENGTH_PULL_def STRENGTH_HI_Z_def VALUE_MODE_D_def)
qed

subsection \<open>C4: the order of the attachments\<close>

text \<open>
  Claim C4, as stated, fails.  Two drivers of strength PULL that drive digital 1 and
  digital 0 put the wire in conflict in either order, but the cached value is that of the
  driver visited first: 0 when the attachments are (driver 1, driver 2), 1 when they are
  (driver 2, driver 1).
\<close>

theorem resolver_order_counterexample:
  "mset (w_attachments (mk_wire [Some 2, Some 1] [])) =
     mset (w_attachments (mk_wire [Some 1, Some 2] [])) \<and>
   wire_heap tie_state 0 = Some (mk_wire [Some 1, Some 2] []) \<and>
   driver_heap tie_state_swapped = driver_heap tie_state \<and>
   wire_heap tie_state_swapped 0 = Some (mk_wire [Some 2, Some 1] []) \<and>
   resolved_after (wire_update (Some 0) tie_state) 0 =
     Some ((STRENGTH_PULL, VALUE_MODE_D, 0), True) \<and>
   resolved_after (wire_update (Some 0) tie_state_swapped) 0 =
     Some ((STRENGTH_PULL, VALUE_MODE_D, 1), True)"
  by (simp add: resolved_after_def resolved_def wire_update_def wire_at_def tie_state_def tie_state_swapped_def
      mk_wire_def mk_driver_def VECTOR_AT_def driver_at_def best_init_def put_wire_def
      log_event_def wire_commit_def STRENGTH_PULL_def STRENGTH_HI_Z_def VALUE_MODE_D_def)

text \<open>
  Claim C4, amended.  For every permutation of the attachments of a wire, resolution
  yields the same strength and the same conflict flag, and when it finds no conflict it
  yields the same mode and value as well.  (In a conflict the mode and value stored are
  those of the strongest driver visited first, and the header says of them that the
  sensed value is not defined.)
\<close>

theorem resolver_order_independent:
  assumes "wire_heap s w = Some W"
    and "list_all2 (attached_to s) (w_attachments W) Ds"
    and "mset atts' = mset (w_attachments W)"
  shows "\<exists>s1 W1 s2 W2.
           wire_update (Some w) s = returns s1 \<and> wire_heap s1 w = Some W1 \<and>
           wire_update (Some w) (put_wire w (W\<lparr>w_attachments := atts'\<rparr>) s) = returns s2 \<and>
           wire_heap s2 w = Some W2 \<and>
           w_strength W1 = w_strength W2 \<and>
           w_is_conflict W1 = w_is_conflict W2 \<and>
           (\<not> w_is_conflict W1 \<longrightarrow> resolved W1 = resolved W2)"
proof -
  let ?s = "put_wire w (W\<lparr>w_attachments := atts'\<rparr>) s"
  let ?Ds' = "map (\<lambda>p. the (driver_heap s (the p))) atts'"
  have valid: "\<And>p. p \<in> set (w_attachments W) \<Longrightarrow> \<exists>d D. p = Some d \<and> driver_heap s d = Some D"
  proof -
    fix p assume "p \<in> set (w_attachments W)"
    then obtain i where i: "i < length (w_attachments W)" "w_attachments W ! i = p"
      by (auto simp: in_set_conv_nth)
    with assms(2) have "attached_to s p (Ds ! i)" by (auto simp: list_all2_nthD)
    then show "\<exists>d D. p = Some d \<and> driver_heap s d = Some D"
      by (auto simp: attached_to_def split: option.splits)
  qed
  have sig: "\<And>p D. attached_to s p D \<Longrightarrow> signal_of D = signal_of (the (driver_heap s (the p)))"
    by (auto simp: attached_to_def split: option.splits)
  have sets: "set atts' = set (w_attachments W)" using assms(3) by (rule mset_eq_setD)
  have Ds': "list_all2 (attached_to ?s) (w_attachments (W\<lparr>w_attachments := atts'\<rparr>)) ?Ds'"
  proof -
    have "\<forall>p\<in>set atts'. attached_to ?s p (the (driver_heap s (the p)))"
    proof
      fix p assume "p \<in> set atts'"
      with sets valid obtain d D where "p = Some d" "driver_heap s d = Some D" by blast
      then show "attached_to ?s p (the (driver_heap s (the p)))"
        by (simp add: attached_to_def put_wire_def)
    qed
    then show ?thesis
      by (simp add: list_all2_map2 list_all2_same)
  qed
  have "map signal_of Ds = map (\<lambda>p. signal_of (the (driver_heap s (the p)))) (w_attachments W)"
    using assms(2) sig by (induction rule: list_all2_induct) auto
  then have "set (map signal_of Ds) = set (map signal_of ?Ds')"
    using sets by (simp add: image_image)
  then have same: "set (rev (map signal_of Ds)) = set (rev (map signal_of ?Ds'))" by simp
  from wire_update_returns[OF assms(1,2)] obtain s1 W1 where
    r1: "wire_update (Some w) s = returns s1" "wire_heap s1 w = Some W1"
        "resolved W1 = resolver_spec (rev (map signal_of Ds))"
    by blast
  have W': "wire_heap ?s w = Some (W\<lparr>w_attachments := atts'\<rparr>)" by (simp add: put_wire_def)
  from wire_update_returns[OF W' Ds'] obtain s2 W2 where
    r2: "wire_update (Some w) ?s = returns s2" "wire_heap s2 w = Some W2"
        "resolved W2 = resolver_spec (rev (map signal_of ?Ds'))"
    by blast
  have "resolver_inv (set (rev (map signal_of Ds))) (resolved W1)"
    unfolding r1(3) by (rule resolver_spec_inv)
  moreover have "resolver_inv (set (rev (map signal_of Ds))) (resolved W2)"
    unfolding r2(3) same by (rule resolver_spec_inv)
  ultimately have "fst (fst (resolved W1)) = fst (fst (resolved W2)) \<and>
      snd (resolved W1) = snd (resolved W2) \<and>
      (\<not> snd (resolved W1) \<longrightarrow> resolved W1 = resolved W2)"
    by (rule resolver_inv_unique)
  then have "w_strength W1 = w_strength W2 \<and> w_is_conflict W1 = w_is_conflict W2 \<and>
      (\<not> w_is_conflict W1 \<longrightarrow> resolved W1 = resolved W2)"
    by (simp add: resolved_def)
  with r1 r2 show ?thesis by blast
qed

theorem resolver_order_independent_witness:
  "\<exists>s1 W1 s2 W2.
     wire_update (Some 0) tie_state = returns s1 \<and> wire_heap s1 0 = Some W1 \<and>
     wire_update (Some 0) tie_state_swapped = returns s2 \<and> wire_heap s2 0 = Some W2 \<and>
     w_strength W1 = w_strength W2 \<and> w_is_conflict W1 = w_is_conflict W2 \<and>
     (\<not> w_is_conflict W1 \<longrightarrow> resolved W1 = resolved W2)"
proof -
  have h1: "wire_heap tie_state 0 = Some (mk_wire [Some 1, Some 2] [])"
    by (simp add: tie_state_def)
  have h2: "list_all2 (attached_to tie_state) (w_attachments (mk_wire [Some 1, Some 2] []))
              [mk_driver [Some 0] STRENGTH_PULL VALUE_MODE_D 1,
               mk_driver [Some 0] STRENGTH_PULL VALUE_MODE_D 0]"
    by (simp add: tie_state_def mk_wire_def attached_to_def)
  have h3: "mset [Some 2, Some (1::nat)] = mset (w_attachments (mk_wire [Some 1, Some 2] []))"
    by (simp add: mk_wire_def)
  have sw: "put_wire 0 (mk_wire [Some 1, Some 2] []\<lparr>w_attachments := [Some 2, Some 1]\<rparr>) tie_state
              = tie_state_swapped"
    by (simp add: tie_state_swapped_def mk_wire_def)
  from resolver_order_independent[OF h1 h2 h3] show ?thesis
    unfolding sw .
qed

subsection \<open>Words of one and three bits\<close>

lemma mode_cases: "(m :: 1 word) = VALUE_MODE_D \<or> m = VALUE_MODE_A"
proof -
  have "unat m < 2" using unsigned_less[of m, where ?'a = nat] by simp
  then have "unat m = 0 \<or> unat m = unat (1 :: 1 word)" by auto
  then have "m = 0 \<or> m = 1"
    using unat_0_iff[of m] word_unat_eq_iff[of m 1] by blast
  then show ?thesis
    by (simp add: VALUE_MODE_D_def VALUE_MODE_A_def)
qed

lemma mode_neq: "VALUE_MODE_A \<noteq> VALUE_MODE_D"
  by (simp add: VALUE_MODE_D_def VALUE_MODE_A_def)

lemma unat_ucast_strength: "unat (ucast (x :: 3 word) :: 32 word) = unat x"
proof -
  have "unat x < 2 ^ 3" using unsigned_less[of x, where ?'a = nat] by simp
  then have "unat x < 2 ^ 32" by simp
  then show ?thesis by (simp add: unsigned_ucast_eq take_bit_nat_eq_self)
qed

subsection \<open>C7: sensing across modes\<close>

text \<open>
  Claim C7.  The cached mode of a wire is Analogue or Digital.  On an Analogue wire the
  digital sense is \<open>value \<ge> intrinsic / 2\<close> (signed, the division truncating as C's
  does) and the analogue sense is the value; on a Digital wire the analogue sense is the
  intrinsic value when the value is not 0, else 0, and the digital sense is
  \<open>value \<noteq> 0\<close>.  Both return the cached strength, and both answer (false or 0, HI_Z)
  for a \<open>NULL\<close> wire.
\<close>

theorem sense_cross_mode:
  assumes "wire_heap s w = Some W"
  shows "(w_value_mode W = VALUE_MODE_A \<or> w_value_mode W = VALUE_MODE_D) \<and>
         (w_value_mode W = VALUE_MODE_A \<longrightarrow>
            qemu_wire_sense (Some w) s =
              returns (sint (w_intrinsic W) sdiv 2 \<le> sint (w_value W), ucast (w_strength W)) \<and>
            qemu_wire_sense_a (Some w) s = returns (w_value W, ucast (w_strength W))) \<and>
         (w_value_mode W = VALUE_MODE_D \<longrightarrow>
            qemu_wire_sense_a (Some w) s =
              returns (if w_value W \<noteq> 0 then w_intrinsic W else 0, ucast (w_strength W)) \<and>
            qemu_wire_sense (Some w) s = returns (w_value W \<noteq> 0, ucast (w_strength W))) \<and>
         unat (ucast (w_strength W) :: 32 word) = unat (w_strength W) \<and>
         qemu_wire_sense None s = returns (False, STRENGTH_HI_Z) \<and>
         qemu_wire_sense_a None s = returns (0, STRENGTH_HI_Z)"
  using assms mode_cases[of "w_value_mode W"] mode_neq
  by (auto simp: qemu_wire_sense_def qemu_wire_sense_a_def wire_at_def unat_ucast_strength)

theorem sense_cross_mode_witness:
  "qemu_wire_sense (Some 0) analogue_state = returns (False, STRENGTH_PULL) \<and>
   qemu_wire_sense_a (Some 0) analogue_state = returns (12345, STRENGTH_PULL)"
proof -
  have h: "wire_heap analogue_state 0 = Some analogue_wire"
    by (simp add: analogue_state_def)
  have m: "w_value_mode analogue_wire = VALUE_MODE_A"
    by (simp add: analogue_wire_def)
  have v: "(sint (w_intrinsic analogue_wire) sdiv 2 \<le> sint (w_value analogue_wire)) = False"
    by (simp add: analogue_wire_def mk_wire_def WIRE_INTRINSIC_DEFAULT_def signed_divide_int_def)
  have st: "(ucast (w_strength analogue_wire) :: 32 word) = STRENGTH_PULL"
    by (simp add: analogue_wire_def STRENGTH_PULL_def)
  from sense_cross_mode[OF h] m show ?thesis
    by (simp add: v st) (simp add: analogue_wire_def)
qed

subsection \<open>C9: conflict hysteresis of the composite listener\<close>

lemma conflict_walk_found:
  assumes "i \<le> length wires"
    and "\<forall>j<i. wires ! j = None \<or> (\<exists>w W. wires ! j = Some w \<and> wire_heap s w = Some W)"
    and "\<exists>j<i. \<exists>w W. wires ! j = Some w \<and> wire_heap s w = Some W \<and> w_is_conflict W"
  shows "conflict_walk s wires i False = returns True"
  using assms
proof (induction i)
  case 0
  then show ?case by simp
next
  case (Suc i)
  from Suc.prems(1) have i: "i < length wires" by simp
  from Suc.prems(2) have here: "wires ! i = None \<or> (\<exists>w W. wires ! i = Some w \<and> wire_heap s w = Some W)"
    by simp
  from Suc.prems(2) have below: "\<forall>j<i. wires ! j = None \<or> (\<exists>w W. wires ! j = Some w \<and> wire_heap s w = Some W)"
    by simp
  show ?case
  proof (cases "\<exists>w W. wires ! i = Some w \<and> wire_heap s w = Some W \<and> w_is_conflict W")
    case True
    then show ?thesis using i by (auto simp: VECTOR_AT_def wire_at_def)
  next
    case False
    with Suc.prems(3) have "\<exists>j<i. \<exists>w W. wires ! j = Some w \<and> wire_heap s w = Some W \<and> w_is_conflict W"
      by (metis less_Suc_eq)
    with Suc.IH below i have ih: "conflict_walk s wires i False = returns True" by simp
    from here False show ?thesis using i ih
      by (auto simp: VECTOR_AT_def wire_at_def)
  qed
qed

text \<open>
  Claim C9.  When the snapshot of a composite listener records a conflict and some member
  wire is in conflict now (the member pointers being \<open>NULL\<close> or valid), \<open>multi_handler\<close>
  returns the state it was given: the snapshot is not updated, nothing is logged, and the
  user handler is not called, whatever it would do and whatever the member wires hold.
\<close>

theorem composite_conflict_hysteresis:
  assumes "multi_heap s p = Some ml"
    and "ml_in_conflict ml"
    and "ml_n ml \<le> length (ml_wires ml)"
    and "\<forall>j<ml_n ml. ml_wires ml ! j = None \<or>
            (\<exists>w W. ml_wires ml ! j = Some w \<and> wire_heap s w = Some W)"
    and "\<exists>j<ml_n ml. \<exists>w W. ml_wires ml ! j = Some w \<and> wire_heap s w = Some W \<and> w_is_conflict W"
  shows "multi_handler mcb p wire s = returns s"
  using conflict_walk_found[OF assms(3,4,5)] assms(1,2)
  by (simp add: multi_handler_def)

theorem composite_conflict_hysteresis_witness:
  "multi_handler (\<lambda>h opq v st n ws s. None) 7 (Some 0) conflicted_state = returns conflicted_state"
proof -
  let ?ml = "\<lparr>ml_handler = 3, ml_opaque = 0, ml_n = 1, ml_value = 0,
              ml_weakest_strength = STRENGTH_PULL, ml_in_conflict = True,
              ml_wires = [Some 0]\<rparr>"
  have h1: "multi_heap conflicted_state 7 = Some ?ml" by (simp add: conflicted_state_def)
  have h2: "ml_in_conflict ?ml" by simp
  have h3: "ml_n ?ml \<le> length (ml_wires ?ml)" by simp
  have h4: "\<forall>j<ml_n ?ml. ml_wires ?ml ! j = None \<or>
            (\<exists>w W. ml_wires ?ml ! j = Some w \<and> wire_heap conflicted_state w = Some W)"
    by (simp add: conflicted_state_def)
  have h5: "\<exists>j<ml_n ?ml. \<exists>w W. ml_wires ?ml ! j = Some w \<and> wire_heap conflicted_state w = Some W \<and> w_is_conflict W"
    by (simp add: conflicted_state_def)
  show ?thesis
    by (rule composite_conflict_hysteresis[OF h1 h2 h3 h4 h5])
qed

subsection \<open>Notions for the proofs about \<open>qemu_wire_multi_drive\<close>\<close>

lemma put_wire_proj [simp]:
  "wire_heap (put_wire a W s) = (wire_heap s)(a \<mapsto> W)"
  "driver_heap (put_wire a W s) = driver_heap s"
  "multi_heap (put_wire a W s) = multi_heap s"
  "trace (put_wire a W s) = trace s"
  by (simp_all add: put_wire_def)

lemma put_driver_proj [simp]:
  "wire_heap (put_driver a D s) = wire_heap s"
  "driver_heap (put_driver a D s) = (driver_heap s)(a \<mapsto> D)"
  "multi_heap (put_driver a D s) = multi_heap s"
  "trace (put_driver a D s) = trace s"
  by (simp_all add: put_driver_def)

lemma log_event_proj [simp]:
  "wire_heap (log_event e s) = wire_heap s"
  "driver_heap (log_event e s) = driver_heap s"
  "multi_heap (log_event e s) = multi_heap s"
  "trace (log_event e s) = trace s @ [e]"
  by (simp_all add: log_event_def)

lemma log_events_proj [simp]:
  "wire_heap (log_events es s) = wire_heap s"
  "driver_heap (log_events es s) = driver_heap s"
  "multi_heap (log_events es s) = multi_heap s"
  "trace (log_events es s) = trace s @ es"
  by (simp_all add: log_events_def)

lemma state_eqI:
  "wire_heap s = wire_heap t \<Longrightarrow> driver_heap s = driver_heap t \<Longrightarrow>
   multi_heap s = multi_heap t \<Longrightarrow> trace s = trace t \<Longrightarrow> (s :: state) = t"
  by simp

lemma wire_at_Some [simp]:
  "wire_heap s w = Some W \<Longrightarrow> wire_at s (Some w) = returns (w, W)"
  by (simp add: wire_at_def)

lemma driver_at_Some [simp]:
  "driver_heap s d = Some D \<Longrightarrow> driver_at s (Some d) = returns (d, D)"
  by (simp add: driver_at_def)

lemma wire_update_valid:
  assumes W: "wire_heap s w = Some W"
    and v: "\<forall>q\<in>set (w_attachments W). \<exists>d. q = Some d \<and> d \<in> dom (driver_heap s)"
  shows "wire_update (Some w) s =
           returns (put_wire w (resolve (driver_heap s) W) (log_event (Ev_wire_update w) s))"
proof -
  let ?Ds = "map (\<lambda>p. the (driver_heap s (the p))) (w_attachments W)"
  have "\<forall>p\<in>set (w_attachments W). attached_to s p (the (driver_heap s (the p)))"
    using v by (fastforce simp: attached_to_def)
  then have Ds: "list_all2 (attached_to s) (w_attachments W) ?Ds"
    by (simp add: list_all2_map2 list_all2_same)
  have walk: "wire_update_walk s (w_attachments W) (length (w_attachments W)) best_init False =
      returns (with_signal best_init (fst (resolver_spec (rev (map signal_of ?Ds)))),
               snd (resolver_spec (rev (map signal_of ?Ds))))"
    using wire_update_walk_fold[OF Ds le_refl, of best_init False]
    by (simp add: resolver_spec_def drive_signal_def best_init_def)
  show ?thesis
    by (simp add: wire_update_def W walk resolve_def Let_def comp_def)
qed

lemma call_listeners_walk_leaf:
  assumes "wire_heap s w = Some W" and "i \<le> length (w_listeners W)"
  shows "call_listeners_walk leaf_listener (Some w) i s =
           returns (log_events (handler_events w (rev (take i (w_listeners W)))) s)"
  using assms
proof (induction i arbitrary: s)
  case 0
  then show ?case by (simp add: handler_events_def log_events_def)
next
  case (Suc i)
  from Suc.prems have i: "i < length (w_listeners W)" by simp
  let ?e = "Ev_handler (l_handler (w_listeners W ! i)) (l_opaque (w_listeners W ! i)) w"
  have W': "wire_heap (log_event ?e s) w = Some W" using Suc.prems by simp
  have ih: "call_listeners_walk leaf_listener (Some w) i (log_event ?e s) =
      returns (log_events (handler_events w (rev (take i (w_listeners W)))) (log_event ?e s))"
    using Suc.IH[OF W'] i by simp
  have step: "call_listeners_walk leaf_listener (Some w) (Suc i) s =
      call_listeners_walk leaf_listener (Some w) i (log_event ?e s)"
    using Suc.prems i by (simp add: VECTOR_SLOT_def leaf_listener_def)
  show ?case
    unfolding step ih using i
    by (auto intro!: state_eqI simp: take_Suc_conv_app_nth handler_events_def)
qed

lemma wire_call_listeners_leaf:
  assumes "wire_heap s w = Some W"
  shows "wire_call_listeners leaf_listener (Some w) s =
           returns (put_wire w (W\<lparr>w_in_callback := False\<rparr>) (log_events (sweep_events w W) s))"
proof -
  let ?s1 = "if w_in_callback W then log_event (Ev_diagnostic w) s else s"
  let ?s2 = "put_wire w (W\<lparr>w_in_callback := True\<rparr>) (log_event (Ev_call_listeners w) ?s1)"
  have h: "wire_heap ?s2 w = Some (W\<lparr>w_in_callback := True\<rparr>)" by simp
  have walk: "call_listeners_walk leaf_listener (Some w) (length (w_listeners W)) ?s2 =
      returns (log_events (handler_events w (rev (w_listeners W))) ?s2)"
    using call_listeners_walk_leaf[OF h, of "length (w_listeners W)"] by simp
  show ?thesis
    using assms
    by (simp add: wire_call_listeners_def Let_def walk)
       (auto intro!: state_eqI simp: sweep_events_def)
qed

lemma wire_notify_leaf:
  assumes "wire_heap s w = Some W"
  shows "wire_notify_if_changed leaf_listener (Some w) s =
           returns (if w_changed W
                    then put_wire w (W\<lparr>w_changed := False, w_in_callback := False\<rparr>)
                           (log_events (sweep_events w W) s)
                    else s)"
proof -
  have h: "wire_heap (put_wire w (W\<lparr>w_changed := False\<rparr>) s) w = Some (W\<lparr>w_changed := False\<rparr>)"
    by simp
  show ?thesis
    using assms
    by (simp add: wire_notify_if_changed_def wire_call_listeners_leaf[OF h])
       (auto intro!: state_eqI simp: sweep_events_def)
qed

lemma well_formed_put_wire:
  assumes "well_formed s" and "wire_heap s w = Some W" and "w_attachments W' = w_attachments W"
  shows "well_formed (put_wire w W' s)"
  using assms unfolding well_formed_def
  by (auto simp: dom_def split: if_splits) (metis option.distinct(1))+

lemma well_formed_put_driver:
  assumes "well_formed s" and "driver_heap s d = Some D" and "d_wires D' = d_wires D"
  shows "well_formed (put_driver d D' s)"
  using assms unfolding well_formed_def
  by (auto simp: dom_def split: if_splits) (metis option.distinct(1))+

lemma well_formed_log [simp]:
  "well_formed (log_event e s) = well_formed s"
  "well_formed (log_events es s) = well_formed s"
  by (simp_all add: well_formed_def)

lemma resolve_fields [simp]:
  "w_attachments (resolve h W) = w_attachments W"
  "w_listeners (resolve h W) = w_listeners W"
  "w_intrinsic (resolve h W) = w_intrinsic W"
  "w_in_callback (resolve h W) = w_in_callback W"
  "w_driver_changed (resolve h W) = w_driver_changed W"
  by (simp_all add: resolve_def wire_commit_def Let_def)

lemma upd_wire_fields [simp]:
  "w_attachments (upd_wire h W) = w_attachments W"
  "w_listeners (upd_wire h W) = w_listeners W"
  "w_intrinsic (upd_wire h W) = w_intrinsic W"
  "w_in_callback (upd_wire h W) = w_in_callback W"
  "w_driver_changed (upd_wire h W) = False"
  by (simp_all add: upd_wire_def)

lemma upd_wire_idem [simp]: "upd_wire h (upd_wire h W) = upd_wire h W"
  by (simp add: upd_wire_def)

lemma clr_wire_fields [simp]:
  "w_attachments (clr_wire W) = w_attachments W"
  "w_listeners (clr_wire W) = w_listeners W"
  "w_intrinsic (clr_wire W) = w_intrinsic W"
  "w_driver_changed (clr_wire W) = w_driver_changed W"
  "w_changed (clr_wire W) = False"
  "w_value (clr_wire W) = w_value W"
  "w_strength (clr_wire W) = w_strength W"
  "w_value_mode (clr_wire W) = w_value_mode W"
  "w_is_conflict (clr_wire W) = w_is_conflict W"
  by (simp_all add: clr_wire_def)

lemma clr_wire_idem [simp]: "clr_wire (clr_wire W) = clr_wire W"
  by (simp add: clr_wire_def)

lemma well_formed_transfer:
  assumes "well_formed s"
    and "\<forall>d. map_option d_wires (driver_heap s' d) = map_option d_wires (driver_heap s d)"
    and "\<forall>w. map_option w_attachments (wire_heap s' w) = map_option w_attachments (wire_heap s w)"
  shows "well_formed s'"
  unfolding well_formed_def
proof (intro conjI allI impI ballI)
  fix d D p assume D: "driver_heap s' d = Some D" and p: "p \<in> set (d_wires D)"
  from assms(2) D obtain D0 where D0: "driver_heap s d = Some D0" "d_wires D0 = d_wires D"
    by (metis map_option_eq_Some option.simps(9))
  with assms(1) p obtain w where w: "p = Some w" "w \<in> dom (wire_heap s)"
    unfolding well_formed_def by metis
  from w(2) assms(3) have "w \<in> dom (wire_heap s')"
    by (metis domD domIff option.map_disc_iff)
  with w(1) show "\<exists>w. p = Some w \<and> w \<in> dom (wire_heap s')" by blast
next
  fix w W q assume W: "wire_heap s' w = Some W" and q: "q \<in> set (w_attachments W)"
  from assms(3) W obtain W0 where W0: "wire_heap s w = Some W0" "w_attachments W0 = w_attachments W"
    by (metis map_option_eq_Some option.simps(9))
  with assms(1) q obtain d where d: "q = Some d" "d \<in> dom (driver_heap s)"
    unfolding well_formed_def by metis
  from d(2) assms(2) have "d \<in> dom (driver_heap s')"
    by (metis domD domIff option.map_disc_iff)
  with d(1) show "\<exists>d. q = Some d \<and> d \<in> dom (driver_heap s')" by blast
qed

lemma clr_driver_fields [simp]:
  "d_wires (clr_driver D) = d_wires D"
  "d_value (clr_driver D) = d_value D"
  "d_strength (clr_driver D) = d_strength D"
  "d_value_mode (clr_driver D) = d_value_mode D"
  "d_changed (clr_driver D) = False"
  by (simp_all add: clr_driver_def)

lemma clr_driver_idem [simp]: "clr_driver (clr_driver D) = clr_driver D"
  by (simp add: clr_driver_def)

lemma clr_driver_clean: "\<not> d_changed D \<Longrightarrow> clr_driver D = D"
  by (cases D) (simp add: clr_driver_def)

lemma clr_wire_clean: "\<not> w_changed W \<Longrightarrow> clr_wire W = W"
  by (simp add: clr_wire_def)

lemma upd_wire_clean: "\<not> w_driver_changed W \<Longrightarrow> upd_wire h W = W"
  by (simp add: upd_wire_def)

lemma count_sweep_other:
  "ev_wire e \<noteq> w \<Longrightarrow> count_list (sweep_events w W) e = 0"
  by (cases e) (auto simp: sweep_events_def handler_events_def count_list_0_iff)

lemma update_wires_closed:
  assumes "well_formed s"
    and "\<forall>p\<in>set ps. \<exists>w. p = Some w \<and> w \<in> dom (wire_heap s)"
  shows "\<exists>s'. update_wires ps s = returns s' \<and>
           driver_heap s' = driver_heap s \<and> multi_heap s' = multi_heap s \<and>
           (\<forall>w. wire_heap s' w =
                  (if Some w \<in> set ps then map_option (upd_wire (driver_heap s)) (wire_heap s w)
                   else wire_heap s w)) \<and>
           (\<forall>e. count_list (trace s') e =
                  count_list (trace s) e +
                  (if Some (ev_wire e) \<in> set ps then pending_update s e else 0))"
  using assms
proof (induction ps arbitrary: s)
  case Nil
  then show ?case by simp
next
  case (Cons p ps)
  from Cons.prems(2) obtain w W where p: "p = Some w" and W: "wire_heap s w = Some W"
    by auto
  let ?h = "driver_heap s"
  let ?s2 = "if w_driver_changed W
             then put_wire w (upd_wire ?h W) (put_wire w (resolve ?h W) (log_event (Ev_wire_update w) s))
             else s"
  have valid: "\<forall>q\<in>set (w_attachments W). \<exists>d. q = Some d \<and> d \<in> dom (driver_heap s)"
    using Cons.prems(1) W unfolding well_formed_def by blast
  have step: "update_wires (p # ps) s = update_wires ps ?s2"
    using W by (simp add: p wire_update_valid[OF W valid] upd_wire_def)
  have h2: "driver_heap ?s2 = ?h" "multi_heap ?s2 = multi_heap s" by simp_all
  have w2: "\<And>x. wire_heap ?s2 x = (if x = w then Some (upd_wire ?h W) else wire_heap s x)"
    using W by (auto simp: upd_wire_def)
  have t2: "\<And>e. count_list (trace ?s2) e =
       count_list (trace s) e + (if ev_wire e = w then pending_update s e else 0)"
  proof -
    fix e show "count_list (trace ?s2) e =
       count_list (trace s) e + (if ev_wire e = w then pending_update s e else 0)"
      using W by (cases e) (auto simp: pending_update_def)
  qed
  have p2: "\<And>e. pending_update ?s2 e = (if ev_wire e = w then 0 else pending_update s e)"
  proof -
    fix e show "pending_update ?s2 e = (if ev_wire e = w then 0 else pending_update s e)"
      using W by (cases e) (auto simp: pending_update_def upd_wire_def)
  qed
  have wf2: "well_formed ?s2"
  proof (cases "w_driver_changed W")
    case True
    have a: "well_formed (put_wire w (resolve ?h W) (log_event (Ev_wire_update w) s))"
      using Cons.prems(1) W by (intro well_formed_put_wire[where W = W]) simp_all
    show ?thesis using True
      by (simp only: if_True)
         (rule well_formed_put_wire[OF a, where W = "resolve ?h W"], simp_all)
  next
    case False
    then show ?thesis using Cons.prems(1) by simp
  qed
  have ps2: "\<forall>q\<in>set ps. \<exists>x. q = Some x \<and> x \<in> dom (wire_heap ?s2)"
  proof
    fix q assume "q \<in> set ps"
    with Cons.prems(2) obtain x where x: "q = Some x" "x \<in> dom (wire_heap s)" by auto
    have "x \<in> dom (wire_heap ?s2)" using x(2) W unfolding dom_def w2 by simp
    with x(1) show "\<exists>x. q = Some x \<and> x \<in> dom (wire_heap ?s2)" by blast
  qed
  from Cons.IH[OF wf2 ps2] obtain s' where
    r: "update_wires ps ?s2 = returns s'"
      and dh: "driver_heap s' = driver_heap ?s2" and mh: "multi_heap s' = multi_heap ?s2"
      and wh: "\<forall>x. wire_heap s' x =
                  (if Some x \<in> set ps then map_option (upd_wire (driver_heap ?s2)) (wire_heap ?s2 x)
                   else wire_heap ?s2 x)"
      and tr: "\<forall>e. count_list (trace s') e =
                  count_list (trace ?s2) e +
                  (if Some (ev_wire e) \<in> set ps then pending_update ?s2 e else 0)"
    by blast
  have wh': "\<forall>x. wire_heap s' x =
                  (if Some x \<in> set (p # ps) then map_option (upd_wire ?h) (wire_heap s x)
                   else wire_heap s x)"
    using wh W unfolding h2 w2 by (auto simp: p)
  have tr': "\<forall>e. count_list (trace s') e =
                  count_list (trace s) e +
                  (if Some (ev_wire e) \<in> set (p # ps) then pending_update s e else 0)"
    using tr unfolding t2 p2 by (auto simp: p)
  from r dh mh wh' tr' show ?case
    unfolding step h2 by blast
qed

lemma cov_Cons:
  "cov h (wd # wds) w \<longleftrightarrow>
     (\<exists>d. wd_driver wd = Some d \<and> dirty h d \<and> feeds h d w) \<or> cov h wds w"
  by (auto simp: cov_def)

lemma drive_update_closed:
  assumes "well_formed s" and "valid_drives s wds"
  shows "\<exists>s'. drive_update wds s = returns s' \<and>
           driver_heap s' = driver_heap s \<and> multi_heap s' = multi_heap s \<and>
           (\<forall>w. wire_heap s' w =
                  (if cov (driver_heap s) wds w
                   then map_option (upd_wire (driver_heap s)) (wire_heap s w)
                   else wire_heap s w)) \<and>
           (\<forall>e. count_list (trace s') e =
                  count_list (trace s) e +
                  (if cov (driver_heap s) wds (ev_wire e) then pending_update s e else 0))"
  using assms
proof (induction wds arbitrary: s)
  case Nil
  then show ?case by (simp add: cov_def)
next
  case (Cons wd wds)
  let ?h = "driver_heap s"
  from Cons.prems(2) have vd: "valid_drives s wds" by (simp add: valid_drives_def)
  note ih = Cons.IH[OF Cons.prems(1) vd]
  show ?case
  proof (cases "\<exists>d. wd_driver wd = Some d \<and> dirty ?h d")
    case False
    then have step: "drive_update (wd # wds) s = drive_update wds s"
      using Cons.prems(2)
      by (cases "wd_driver wd") (auto simp: valid_drives_def dirty_def)
    have c: "\<And>w. cov ?h (wd # wds) w = cov ?h wds w"
      using False by (auto simp: cov_Cons)
    show ?thesis unfolding step c by (rule ih)
  next
    case True
    then obtain d D where d: "wd_driver wd = Some d" and D: "?h d = Some D" "d_changed D"
      by (auto simp: dirty_def split: option.splits)
    have ps: "\<forall>p\<in>set (d_wires D). \<exists>w. p = Some w \<and> w \<in> dom (wire_heap s)"
      using Cons.prems(1) D(1) unfolding well_formed_def by blast
    from update_wires_closed[OF Cons.prems(1) ps] obtain s1 where
      r1: "update_wires (d_wires D) s = returns s1"
        and dh1: "driver_heap s1 = ?h" and mh1: "multi_heap s1 = multi_heap s"
        and wh1: "\<forall>w. wire_heap s1 w =
                  (if Some w \<in> set (d_wires D) then map_option (upd_wire ?h) (wire_heap s w)
                   else wire_heap s w)"
        and tr1: "\<forall>e. count_list (trace s1) e =
                  count_list (trace s) e +
                  (if Some (ev_wire e) \<in> set (d_wires D) then pending_update s e else 0)"
      by blast
    have step: "drive_update (wd # wds) s = drive_update wds s1"
      using d D by (simp add: r1)
    have wf1: "well_formed s1"
      by (rule well_formed_transfer[OF Cons.prems(1)])
         (simp_all add: dh1 wh1 option.map_comp comp_def)
    have vd1: "valid_drives s1 wds" using vd by (simp add: valid_drives_def dh1)
    from Cons.IH[OF wf1 vd1] obtain s' where
      r: "drive_update wds s1 = returns s'"
        and dh: "driver_heap s' = ?h" and mh: "multi_heap s' = multi_heap s"
        and wh: "\<forall>w. wire_heap s' w =
                  (if cov ?h wds w then map_option (upd_wire ?h) (wire_heap s1 w)
                   else wire_heap s1 w)"
        and tr: "\<forall>e. count_list (trace s') e =
                  count_list (trace s1) e +
                  (if cov ?h wds (ev_wire e) then pending_update s1 e else 0)"
      unfolding dh1 mh1 by blast
    have c: "\<And>w. cov ?h (wd # wds) w \<longleftrightarrow> Some w \<in> set (d_wires D) \<or> cov ?h wds w"
      using d D by (auto simp: cov_Cons dirty_def feeds_def)
    have p1: "\<And>e. pending_update s1 e =
        (if Some (ev_wire e) \<in> set (d_wires D) then 0 else pending_update s e)"
    proof -
      fix e show "pending_update s1 e =
        (if Some (ev_wire e) \<in> set (d_wires D) then 0 else pending_update s e)"
        by (cases e) (auto simp: pending_update_def wh1 split: option.splits)
    qed
    have wh': "\<forall>w. wire_heap s' w =
                  (if cov ?h (wd # wds) w then map_option (upd_wire ?h) (wire_heap s w)
                   else wire_heap s w)"
      unfolding c using wh wh1 by (simp add: option.map_comp comp_def)
    have tr': "\<forall>e. count_list (trace s') e =
                  count_list (trace s) e +
                  (if cov ?h (wd # wds) (ev_wire e) then pending_update s e else 0)"
      unfolding c using tr tr1 p1 by simp
    from r dh mh wh' tr' show ?thesis unfolding step by blast
  qed
qed

lemma notify_wires_closed:
  assumes "driver_heap s d = Some D"
    and "\<forall>p\<in>set (d_wires D). \<exists>w. p = Some w \<and> w \<in> dom (wire_heap s)"
    and "n = length (d_wires D) - i"
  shows "\<exists>s'. notify_wires leaf_listener (Some d) i s = returns s' \<and>
           driver_heap s' = driver_heap s \<and> multi_heap s' = multi_heap s \<and>
           (\<forall>w. wire_heap s' w =
                  (if Some w \<in> set (drop i (d_wires D)) then map_option clr_wire (wire_heap s w)
                   else wire_heap s w)) \<and>
           (\<forall>e. count_list (trace s') e =
                  count_list (trace s) e +
                  (if Some (ev_wire e) \<in> set (drop i (d_wires D)) then pending_sweep s e else 0))"
  using assms
proof (induction n arbitrary: i s)
  case 0
  then have "\<not> i < length (d_wires D)" by simp
  then show ?case using "0.prems"(1)
    by (subst notify_wires.simps) simp
next
  case (Suc n)
  from Suc.prems(3) have i: "i < length (d_wires D)" by simp
  with Suc.prems(2) obtain w W where p: "d_wires D ! i = Some w" and W: "wire_heap s w = Some W"
    by (metis domD nth_mem)
  let ?s1 = "if w_changed W
             then put_wire w (W\<lparr>w_changed := False, w_in_callback := False\<rparr>)
                    (log_events (sweep_events w W) s)
             else s"
  have step: "notify_wires leaf_listener (Some d) i s = notify_wires leaf_listener (Some d) (i + 1) ?s1"
    using Suc.prems(1) i
    by (subst notify_wires.simps) (simp add: p wire_notify_leaf[OF W])
  have d1: "driver_heap ?s1 = driver_heap s" "multi_heap ?s1 = multi_heap s" by simp_all
  have w1: "\<And>x. wire_heap ?s1 x = (if x = w then Some (clr_wire W) else wire_heap s x)"
    using W by (auto simp: clr_wire_def)
  have t1: "\<And>e. count_list (trace ?s1) e =
       count_list (trace s) e + (if ev_wire e = w then pending_sweep s e else 0)"
    using W by (auto simp: pending_sweep_def count_sweep_other)
  have p1: "\<And>e. pending_sweep ?s1 e = (if ev_wire e = w then 0 else pending_sweep s e)"
    using W by (auto simp: pending_sweep_def)
  have D1: "driver_heap ?s1 d = Some D" using Suc.prems(1) by simp
  have ps1: "\<forall>q\<in>set (d_wires D). \<exists>x. q = Some x \<and> x \<in> dom (wire_heap ?s1)"
  proof
    fix q assume "q \<in> set (d_wires D)"
    with Suc.prems(2) obtain x where x: "q = Some x" "x \<in> dom (wire_heap s)" by blast
    have "x \<in> dom (wire_heap ?s1)" using x(2) W unfolding dom_def w1 by simp
    with x(1) show "\<exists>x. q = Some x \<and> x \<in> dom (wire_heap ?s1)" by blast
  qed
  have n: "n = length (d_wires D) - (i + 1)" using Suc.prems(3) by simp
  from Suc.IH[OF D1 ps1 n] obtain s' where
    r: "notify_wires leaf_listener (Some d) (i + 1) ?s1 = returns s'"
      and dh: "driver_heap s' = driver_heap ?s1" and mh: "multi_heap s' = multi_heap ?s1"
      and wh: "\<forall>x. wire_heap s' x =
                  (if Some x \<in> set (drop (i + 1) (d_wires D)) then map_option clr_wire (wire_heap ?s1 x)
                   else wire_heap ?s1 x)"
      and tr: "\<forall>e. count_list (trace s') e =
                  count_list (trace ?s1) e +
                  (if Some (ev_wire e) \<in> set (drop (i + 1) (d_wires D)) then pending_sweep ?s1 e else 0)"
    by blast
  have dr: "drop i (d_wires D) = Some w # drop (i + 1) (d_wires D)"
    using i p by (simp add: Cons_nth_drop_Suc[symmetric])
  have wh': "\<forall>x. wire_heap s' x =
                  (if Some x \<in> set (drop i (d_wires D)) then map_option clr_wire (wire_heap s x)
                   else wire_heap s x)"
    using wh W unfolding d1 w1 dr by auto
  have tr': "\<forall>e. count_list (trace s') e =
                  count_list (trace s) e +
                  (if Some (ev_wire e) \<in> set (drop i (d_wires D)) then pending_sweep s e else 0)"
    using tr unfolding t1 p1 dr by auto
  from r dh mh wh' tr' show ?case
    unfolding step d1 by blast
qed

lemma drive_notify_closed:
  assumes "well_formed s" and "valid_drives s wds"
  shows "\<exists>s'. drive_notify leaf_listener wds s = returns s' \<and>
           multi_heap s' = multi_heap s \<and>
           (\<forall>d. driver_heap s' d =
                  (if Some d \<in> wd_driver ` set wds then map_option clr_driver (driver_heap s d)
                   else driver_heap s d)) \<and>
           (\<forall>w. wire_heap s' w =
                  (if cov (driver_heap s) wds w then map_option clr_wire (wire_heap s w)
                   else wire_heap s w)) \<and>
           (\<forall>e. count_list (trace s') e =
                  count_list (trace s) e +
                  (if cov (driver_heap s) wds (ev_wire e) then pending_sweep s e else 0))"
  using assms
proof (induction wds arbitrary: s)
  case Nil
  then show ?case by (simp add: cov_def)
next
  case (Cons wd wds)
  let ?h = "driver_heap s"
  from Cons.prems(2) have vd: "valid_drives s wds" by (simp add: valid_drives_def)
  show ?case
  proof (cases "wd_driver wd")
    case None
    then have step: "drive_notify leaf_listener (wd # wds) s = drive_notify leaf_listener wds s"
      by simp
    have c: "\<And>w. cov ?h (wd # wds) w = cov ?h wds w"
      using None by (auto simp: cov_Cons)
    have t: "\<And>d. Some d \<in> wd_driver ` set (wd # wds) \<longleftrightarrow> Some d \<in> wd_driver ` set wds"
      using None by auto
    show ?thesis unfolding step c t by (rule Cons.IH[OF Cons.prems(1) vd])
  next
    case (Some d)
    with Cons.prems(2) obtain D where D: "?h d = Some D"
      by (auto simp: valid_drives_def)
    show ?thesis
    proof (cases "d_changed D")
      case False
      then have step: "drive_notify leaf_listener (wd # wds) s = drive_notify leaf_listener wds s"
        using Some D by simp
      have c: "\<And>w. cov ?h (wd # wds) w = cov ?h wds w"
        using Some D False by (auto simp: cov_Cons dirty_def)
      from Cons.IH[OF Cons.prems(1) vd] obtain s' where
        r: "drive_notify leaf_listener wds s = returns s'"
          and mh: "multi_heap s' = multi_heap s"
          and dh: "\<forall>x. driver_heap s' x =
                  (if Some x \<in> wd_driver ` set wds then map_option clr_driver (?h x) else ?h x)"
          and wh: "\<forall>w. wire_heap s' w =
                  (if cov ?h wds w then map_option clr_wire (wire_heap s w) else wire_heap s w)"
          and tr: "\<forall>e. count_list (trace s') e =
                  count_list (trace s) e +
                  (if cov ?h wds (ev_wire e) then pending_sweep s e else 0)"
        by blast
      have dh': "\<forall>x. driver_heap s' x =
                  (if Some x \<in> wd_driver ` set (wd # wds) then map_option clr_driver (?h x) else ?h x)"
        using dh Some D clr_driver_clean[OF False] by auto
      from r mh dh' wh tr show ?thesis unfolding step c by blast
    next
      case True
      let ?s0 = "put_driver d (clr_driver D) s"
      have D0: "driver_heap ?s0 d = Some (clr_driver D)" by simp
      have ps: "\<forall>p\<in>set (d_wires (clr_driver D)). \<exists>w. p = Some w \<and> w \<in> dom (wire_heap ?s0)"
        using Cons.prems(1) D unfolding well_formed_def by simp
      from notify_wires_closed[OF D0 ps, of "length (d_wires (clr_driver D)) - 0" 0] obtain s1 where
        r1: "notify_wires leaf_listener (Some d) 0 ?s0 = returns s1"
          and dh1: "driver_heap s1 = ?h(d \<mapsto> clr_driver D)" and mh1: "multi_heap s1 = multi_heap s"
          and wh1: "\<forall>w. wire_heap s1 w =
                  (if Some w \<in> set (d_wires D) then map_option clr_wire (wire_heap s w)
                   else wire_heap s w)"
          and tr1: "\<forall>e. count_list (trace s1) e =
                  count_list (trace s) e +
                  (if Some (ev_wire e) \<in> set (d_wires D) then pending_sweep ?s0 e else 0)"
        by auto
      have ps0: "\<And>e. pending_sweep ?s0 e = pending_sweep s e"
        by (simp add: pending_sweep_def)
      have step: "drive_notify leaf_listener (wd # wds) s = drive_notify leaf_listener wds s1"
        using Some D True by (simp add: r1[unfolded clr_driver_def])
      have wf1: "well_formed s1"
        by (rule well_formed_transfer[OF Cons.prems(1)])
           (simp_all add: dh1 wh1 D option.map_comp comp_def)
      have vd1: "valid_drives s1 wds"
        using vd D by (auto simp: valid_drives_def dh1)
      from Cons.IH[OF wf1 vd1] obtain s' where
        r: "drive_notify leaf_listener wds s1 = returns s'"
          and mh: "multi_heap s' = multi_heap s"
          and dh: "\<forall>x. driver_heap s' x =
                  (if Some x \<in> wd_driver ` set wds then map_option clr_driver (driver_heap s1 x)
                   else driver_heap s1 x)"
          and wh: "\<forall>w. wire_heap s' w =
                  (if cov (driver_heap s1) wds w then map_option clr_wire (wire_heap s1 w)
                   else wire_heap s1 w)"
          and tr: "\<forall>e. count_list (trace s') e =
                  count_list (trace s1) e +
                  (if cov (driver_heap s1) wds (ev_wire e) then pending_sweep s1 e else 0)"
        unfolding mh1 by blast
      have c: "\<And>w. cov ?h (wd # wds) w \<longleftrightarrow> Some w \<in> set (d_wires D) \<or> cov (driver_heap s1) wds w"
      proof -
        fix w
        have a: "\<And>x. x \<noteq> d \<Longrightarrow> dirty (driver_heap s1) x = dirty ?h x"
          by (simp add: dirty_def dh1)
        have b: "\<And>x. x \<noteq> d \<Longrightarrow> feeds (driver_heap s1) x w = feeds ?h x w"
          by (simp add: feeds_def dh1)
        have nd: "\<not> dirty (driver_heap s1) d" by (simp add: dirty_def dh1)
        have fd: "feeds ?h d w \<longleftrightarrow> Some w \<in> set (d_wires D)" by (simp add: feeds_def D)
        have dd: "dirty ?h d" using D True by (simp add: dirty_def)
        show "cov ?h (wd # wds) w \<longleftrightarrow> Some w \<in> set (d_wires D) \<or> cov (driver_heap s1) wds w"
          unfolding cov_Cons
          using Some a b nd fd dd unfolding cov_def by (metis option.inject)
      qed
      have p1: "\<And>e. pending_sweep s1 e =
        (if Some (ev_wire e) \<in> set (d_wires D) then 0 else pending_sweep s e)"
        by (auto simp: pending_sweep_def wh1 split: option.splits)
      have dh': "\<forall>x. driver_heap s' x =
                  (if Some x \<in> wd_driver ` set (wd # wds) then map_option clr_driver (?h x) else ?h x)"
        using dh Some D unfolding dh1 by auto
      have wh': "\<forall>w. wire_heap s' w =
                  (if cov ?h (wd # wds) w then map_option clr_wire (wire_heap s w)
                   else wire_heap s w)"
        unfolding c using wh wh1 by (simp add: option.map_comp comp_def)
      have tr': "\<forall>e. count_list (trace s') e =
                  count_list (trace s) e +
                  (if cov ?h (wd # wds) (ev_wire e) then pending_sweep s e else 0)"
        unfolding c using tr tr1 p1 ps0 by simp
      from r mh dh' wh' tr' show ?thesis unfolding step by blast
    qed
  qed
qed

lemma write_drive_fields [simp]:
  "d_wires (write_drive D wd) = d_wires D"
  "d_changed (write_drive D wd) = True"
  "signal_of (write_drive D wd) = (wd_strength wd, wd_value_mode wd, wd_value wd)"
  by (simp_all add: write_drive_def signal_of_def)

lemma same_drive_signal:
  "same_drive D wd \<longleftrightarrow> signal_of D = (wd_strength wd, wd_value_mode wd, wd_value wd)"
  by (auto simp: same_drive_def signal_of_def)

lemma mark_wire_fields [simp]:
  "w_attachments (mark_wire W) = w_attachments W"
  "w_driver_changed (mark_wire W) = True"
  "mark_wire (mark_wire W) = mark_wire W"
  by (simp_all add: mark_wire_def)

lemma apply_drivers_wires:
  "map_option d_wires (apply_drivers wds h d) = map_option d_wires (h d)"
  by (induction wds arbitrary: h) (auto split: option.splits)

lemma feeds_apply_drivers [simp]: "feeds (apply_drivers wds h) d w = feeds h d w"
  using apply_drivers_wires[of wds h d]
  by (auto simp: feeds_def split: option.splits)

lemma dom_apply_drivers [simp]: "dom (apply_drivers wds h) = dom h"
proof -
  have "\<And>d. (apply_drivers wds h d = None) = (h d = None)"
    using apply_drivers_wires[of wds h] by (metis option.map_disc_iff)
  then show ?thesis by (auto simp: dom_def)
qed

lemma written_targets: "d \<in> written wds h \<Longrightarrow> Some d \<in> wd_driver ` set wds"
  by (induction wds arbitrary: h) (auto split: option.splits if_splits)

lemma apply_drivers_unwritten: "d \<notin> written wds h \<Longrightarrow> apply_drivers wds h d = h d"
  by (induction wds arbitrary: h) (auto split: option.splits if_splits)

lemma dirty_apply_drivers: "dirty (apply_drivers wds h) d \<longleftrightarrow> dirty h d \<or> d \<in> written wds h"
proof (induction wds arbitrary: h)
  case Nil
  show ?case by simp
next
  case (Cons wd wds)
  show ?case
  proof (cases "wd_driver wd")
    case None
    then show ?thesis using Cons.IH[of h] by simp
  next
    case (Some x)
    show ?thesis
    proof (cases "h x")
      case None
      then show ?thesis using Some Cons.IH[of h] by simp
    next
      case (Some D)
      show ?thesis
      proof (cases "same_drive D wd")
        case True
        then show ?thesis using \<open>wd_driver wd = Some x\<close> Some Cons.IH[of h] by simp
      next
        case False
        let ?h' = "h(x \<mapsto> write_drive D wd)"
        have e1: "apply_drivers (wd # wds) h = apply_drivers wds ?h'"
          using \<open>wd_driver wd = Some x\<close> Some False by simp
        have e2: "written (wd # wds) h = insert x (written wds ?h')"
          using \<open>wd_driver wd = Some x\<close> Some False by simp
        have a: "dirty ?h' d \<longleftrightarrow> d = x \<or> dirty h d"
          by (simp add: dirty_def)
        show ?thesis
          unfolding e1 e2 using Cons.IH[of ?h'] a by blast
      qed
    qed
  qed
qed

lemma written_none:
  assumes "h d = Some D" and "\<forall>wd\<in>set wds. wd_driver wd = Some d \<longrightarrow> same_drive D wd"
  shows "d \<notin> written wds h"
  using assms
proof (induction wds arbitrary: h)
  case Nil
  show ?case by simp
next
  case (Cons wd wds)
  from Cons.prems(2) have rest: "\<forall>wd\<in>set wds. wd_driver wd = Some d \<longrightarrow> same_drive D wd"
    by simp
  show ?case
  proof (cases "wd_driver wd")
    case None
    then show ?thesis using Cons.IH[of h, OF Cons.prems(1) rest] by simp
  next
    case (Some x)
    show ?thesis
    proof (cases "h x")
      case None
      then show ?thesis using Some Cons.IH[of h, OF Cons.prems(1) rest] by simp
    next
      case (Some X)
      show ?thesis
      proof (cases "same_drive X wd")
        case True
        then show ?thesis
          using \<open>wd_driver wd = Some x\<close> Some Cons.IH[of h, OF Cons.prems(1) rest] by simp
      next
        case False
        have ne: "x \<noteq> d"
        proof
          assume "x = d"
          with Some Cons.prems(1) have "X = D" by simp
          moreover from \<open>x = d\<close> \<open>wd_driver wd = Some x\<close> Cons.prems(2) have "same_drive D wd"
            by simp
          ultimately show False using False by simp
        qed
        then have "(h(x \<mapsto> write_drive X wd)) d = Some D" using Cons.prems(1) by simp
        from Cons.IH[of "h(x \<mapsto> write_drive X wd)", OF this rest]
        have nw: "d \<notin> written wds (h(x \<mapsto> write_drive X wd))" .
        have e: "written (wd # wds) h = insert x (written wds (h(x \<mapsto> write_drive X wd)))"
          using \<open>wd_driver wd = Some x\<close> Some False by simp
        show ?thesis unfolding e using nw ne by blast
      qed
    qed
  qed
qed

lemma mark_wires_closed:
  assumes "\<forall>p\<in>set ps. \<exists>w. p = Some w \<and> w \<in> dom (wire_heap s)"
  shows "\<exists>s'. mark_wires ps s = returns s' \<and>
           driver_heap s' = driver_heap s \<and> multi_heap s' = multi_heap s \<and>
           trace s' = trace s \<and>
           (\<forall>w. wire_heap s' w =
                  (if Some w \<in> set ps then map_option mark_wire (wire_heap s w)
                   else wire_heap s w))"
  using assms
proof (induction ps arbitrary: s)
  case Nil
  then show ?case by simp
next
  case (Cons p ps)
  from Cons.prems obtain w W where p: "p = Some w" and W: "wire_heap s w = Some W"
    by auto
  let ?s1 = "put_wire w (mark_wire W) s"
  have step: "mark_wires (p # ps) s = mark_wires ps ?s1"
    using W by (simp add: p mark_wire_def)
  have ps1: "\<forall>q\<in>set ps. \<exists>x. q = Some x \<and> x \<in> dom (wire_heap ?s1)"
  proof
    fix q assume "q \<in> set ps"
    with Cons.prems obtain x where x: "q = Some x" "x \<in> dom (wire_heap s)" by auto
    have "x \<in> dom (wire_heap ?s1)" using x(2) by simp
    with x(1) show "\<exists>x. q = Some x \<and> x \<in> dom (wire_heap ?s1)" by blast
  qed
  from Cons.IH[OF ps1] obtain s' where
    r: "mark_wires ps ?s1 = returns s'"
      and dh: "driver_heap s' = driver_heap s" and mh: "multi_heap s' = multi_heap s"
      and tr: "trace s' = trace s"
      and wh: "\<forall>x. wire_heap s' x =
                  (if Some x \<in> set ps then map_option mark_wire (wire_heap ?s1 x)
                   else wire_heap ?s1 x)"
    by auto
  have wh': "\<forall>x. wire_heap s' x =
                  (if Some x \<in> set (p # ps) then map_option mark_wire (wire_heap s x)
                   else wire_heap s x)"
    using wh W by (auto simp: p)
  from r dh mh tr wh' show ?case unfolding step by blast
qed

lemma drive_apply_Cons_Some:
  assumes "wd_driver wd = Some d" and "driver_heap s d = Some D"
  shows "drive_apply (wd # wds) s =
           (if same_drive D wd then drive_apply wds s
            else bind_r (mark_wires (d_wires D) (put_driver d (write_drive D wd) s))
                   (drive_apply wds))"
  using assms by (simp add: same_drive_def write_drive_def)

lemma drive_apply_closed:
  assumes "well_formed s" and "valid_drives s wds"
  shows "\<exists>s'. drive_apply wds s = returns s' \<and>
           driver_heap s' = apply_drivers wds (driver_heap s) \<and>
           multi_heap s' = multi_heap s \<and> trace s' = trace s \<and>
           (\<forall>w. wire_heap s' w =
                  (if \<exists>d\<in>written wds (driver_heap s). feeds (driver_heap s) d w
                   then map_option mark_wire (wire_heap s w)
                   else wire_heap s w))"
  using assms
proof (induction wds arbitrary: s)
  case Nil
  then show ?case by simp
next
  case (Cons wd wds)
  let ?h = "driver_heap s"
  from Cons.prems(2) have vd: "valid_drives s wds" by (simp add: valid_drives_def)
  show ?case
  proof (cases "wd_driver wd")
    case None
    then show ?thesis using Cons.IH[OF Cons.prems(1) vd] by simp
  next
    case (Some d)
    with Cons.prems(2) obtain D where D: "?h d = Some D"
      by (auto simp: valid_drives_def)
    show ?thesis
    proof (cases "same_drive D wd")
      case True
      then have step: "drive_apply (wd # wds) s = drive_apply wds s"
        using drive_apply_Cons_Some[OF Some D, of wds] by simp
      show ?thesis unfolding step using Cons.IH[OF Cons.prems(1) vd] Some D True by simp
    next
      case False
      let ?s0 = "put_driver d (write_drive D wd) s"
      have ps: "\<forall>p\<in>set (d_wires D). \<exists>w. p = Some w \<and> w \<in> dom (wire_heap ?s0)"
        using Cons.prems(1) D unfolding well_formed_def by simp
      from mark_wires_closed[OF ps] obtain s1 where
        r1: "mark_wires (d_wires D) ?s0 = returns s1"
          and dh1: "driver_heap s1 = ?h(d \<mapsto> write_drive D wd)"
          and mh1: "multi_heap s1 = multi_heap s" and tr1: "trace s1 = trace s"
          and wh1: "\<forall>w. wire_heap s1 w =
                  (if Some w \<in> set (d_wires D) then map_option mark_wire (wire_heap s w)
                   else wire_heap s w)"
        by auto
      have step: "drive_apply (wd # wds) s = drive_apply wds s1"
        using drive_apply_Cons_Some[OF Some D, of wds] False by (simp add: r1)
      have wf1: "well_formed s1"
        by (rule well_formed_transfer[OF Cons.prems(1)])
           (simp_all add: dh1 wh1 D option.map_comp comp_def)
      have vd1: "valid_drives s1 wds"
        using vd D by (auto simp: valid_drives_def dh1)
      from Cons.IH[OF wf1 vd1] obtain s' where
        r: "drive_apply wds s1 = returns s'"
          and dh: "driver_heap s' = apply_drivers wds (?h(d \<mapsto> write_drive D wd))"
          and mh: "multi_heap s' = multi_heap s" and tr: "trace s' = trace s"
          and wh: "\<forall>w. wire_heap s' w =
                  (if \<exists>x\<in>written wds (?h(d \<mapsto> write_drive D wd)). feeds (?h(d \<mapsto> write_drive D wd)) x w
                   then map_option mark_wire (wire_heap s1 w)
                   else wire_heap s1 w)"
        unfolding dh1 mh1 tr1 by blast
      have f: "\<And>x w. feeds (?h(d \<mapsto> write_drive D wd)) x w = feeds ?h x w"
        using D by (auto simp: feeds_def)
      have fd: "\<And>w. feeds ?h d w \<longleftrightarrow> Some w \<in> set (d_wires D)"
        using D by (simp add: feeds_def)
      have wr: "written (wd # wds) ?h = insert d (written wds (?h(d \<mapsto> write_drive D wd)))"
        using Some D False by simp
      have ap: "apply_drivers (wd # wds) ?h = apply_drivers wds (?h(d \<mapsto> write_drive D wd))"
        using Some D False by simp
      have wh': "\<forall>w. wire_heap s' w =
                  (if \<exists>x\<in>written (wd # wds) ?h. feeds ?h x w
                   then map_option mark_wire (wire_heap s w)
                   else wire_heap s w)"
        unfolding wr using wh wh1 unfolding f
        by (auto simp: fd option.map_comp comp_def)
      from r dh mh tr wh' show ?thesis unfolding step ap by blast
    qed
  qed
qed

lemma upd_mark_settled:
  "\<not> w_driver_changed W \<Longrightarrow> upd_wire h (mark_wire W) = resolve h W"
  by (cases W) (simp add: upd_wire_def mark_wire_def resolve_def wire_commit_def Let_def)

lemma resolve_changed:
  "\<not> w_changed W \<Longrightarrow> w_changed (resolve h W) = observable_change W (resolve h W)"
  by (auto simp: resolve_def wire_commit_def Let_def observable_change_def with_signal_def
      STRENGTH_HI_Z_def)

lemma observable_change_clr [simp]:
  "observable_change W (clr_wire X) = observable_change W X"
  by (simp add: observable_change_def)

lemma observable_change_refl [simp]: "\<not> observable_change W W"
  by (simp add: observable_change_def)

lemma cov_apply_settled:
  assumes "settled s"
  shows "cov (apply_drivers wds (driver_heap s)) wds w \<longleftrightarrow> fed_by_written wds s w"
proof -
  have nd: "\<And>d. \<not> dirty (driver_heap s) d"
    using assms by (auto simp: settled_def dirty_def split: option.splits)
  show ?thesis
  proof
    assume "cov (apply_drivers wds (driver_heap s)) wds w"
    then show "fed_by_written wds s w"
      unfolding cov_def fed_by_written_def by (auto simp: dirty_apply_drivers nd)
  next
    assume "fed_by_written wds s w"
    then obtain d where d: "d \<in> written wds (driver_heap s)" "feeds (driver_heap s) d w"
      unfolding fed_by_written_def by blast
    from written_targets[OF d(1)] obtain wd where wd: "wd \<in> set wds" "wd_driver wd = Some d"
      by (metis imageE)
    show "cov (apply_drivers wds (driver_heap s)) wds w"
      unfolding cov_def using wd d by (auto simp: dirty_apply_drivers)
  qed
qed

lemma multi_drive_closed:
  assumes wf: "well_formed s" and st: "settled s" and vd: "valid_drives s wds"
  shows "\<exists>s'. qemu_wire_multi_drive leaf_listener wds s = returns s' \<and>
           multi_heap s' = multi_heap s \<and>
           (\<forall>d. driver_heap s' d = map_option clr_driver (apply_drivers wds (driver_heap s) d)) \<and>
           (\<forall>w. wire_heap s' w =
                  (if fed_by_written wds s w
                   then map_option (\<lambda>W. clr_wire (resolve (apply_drivers wds (driver_heap s)) W))
                          (wire_heap s w)
                   else wire_heap s w)) \<and>
           (\<forall>e. count_list (trace s') e =
                  count_list (trace s) e +
                  (if fed_by_written wds s (ev_wire e) then
                     (case wire_heap s (ev_wire e) of
                        None \<Rightarrow> 0
                      | Some W \<Rightarrow>
                          (if e = Ev_wire_update (ev_wire e) then 1 else 0) +
                          (if w_changed (resolve (apply_drivers wds (driver_heap s)) W)
                           then count_list
                                  (sweep_events (ev_wire e)
                                     (resolve (apply_drivers wds (driver_heap s)) W)) e
                           else 0))
                   else 0))"
proof -
  let ?h = "driver_heap s"
  let ?h1 = "apply_drivers wds ?h"
  let ?M = "fed_by_written wds s"
  from drive_apply_closed[OF wf vd] obtain s1 where
    r1: "drive_apply wds s = returns s1"
      and dh1: "driver_heap s1 = ?h1" and mh1: "multi_heap s1 = multi_heap s"
      and tr1: "trace s1 = trace s"
      and wh1: "\<forall>w. wire_heap s1 w =
                  (if ?M w then map_option mark_wire (wire_heap s w) else wire_heap s w)"
    unfolding fed_by_written_def by blast
  have wf1: "well_formed s1"
    by (rule well_formed_transfer[OF wf])
       (simp_all add: dh1 wh1 apply_drivers_wires option.map_comp comp_def)
  have vd1: "valid_drives s1 wds" using vd by (simp add: valid_drives_def dh1)
  have cM: "\<And>w. cov ?h1 wds w \<longleftrightarrow> ?M w" by (rule cov_apply_settled[OF st])
  from drive_update_closed[OF wf1 vd1] obtain s2 where
    r2: "drive_update wds s1 = returns s2"
      and dh2: "driver_heap s2 = ?h1" and mh2: "multi_heap s2 = multi_heap s"
      and wh2: "\<forall>w. wire_heap s2 w =
                  (if ?M w then map_option (upd_wire ?h1) (wire_heap s1 w) else wire_heap s1 w)"
      and tr2: "\<forall>e. count_list (trace s2) e =
                  count_list (trace s) e + (if ?M (ev_wire e) then pending_update s1 e else 0)"
    unfolding dh1 mh1 tr1 cM by blast
  have ndc: "\<And>w W. wire_heap s w = Some W \<Longrightarrow> \<not> w_driver_changed W \<and> \<not> w_changed W \<and> \<not> w_in_callback W"
    using st unfolding settled_def by blast
  have wh2': "\<forall>w. wire_heap s2 w =
                  (if ?M w then map_option (resolve ?h1) (wire_heap s w) else wire_heap s w)"
  proof
    fix w show "wire_heap s2 w =
                  (if ?M w then map_option (resolve ?h1) (wire_heap s w) else wire_heap s w)"
      using wh2 wh1 ndc[of w]
      by (cases "wire_heap s w") (simp_all add: upd_mark_settled)
  qed
  have wf2: "well_formed s2"
    by (rule well_formed_transfer[OF wf])
       (simp_all add: dh2 wh2' apply_drivers_wires option.map_comp comp_def)
  have vd2: "valid_drives s2 wds" using vd by (simp add: valid_drives_def dh2)
  from drive_notify_closed[OF wf2 vd2] obtain s3 where
    r3: "drive_notify leaf_listener wds s2 = returns s3"
      and mh3: "multi_heap s3 = multi_heap s"
      and dh3: "\<forall>d. driver_heap s3 d =
                  (if Some d \<in> wd_driver ` set wds then map_option clr_driver (?h1 d) else ?h1 d)"
      and wh3: "\<forall>w. wire_heap s3 w =
                  (if ?M w then map_option clr_wire (wire_heap s2 w) else wire_heap s2 w)"
      and tr3: "\<forall>e. count_list (trace s3) e =
                  count_list (trace s2) e + (if ?M (ev_wire e) then pending_sweep s2 e else 0)"
    unfolding dh2 mh2 cM by blast
  have run: "qemu_wire_multi_drive leaf_listener wds s = returns s3"
    by (simp add: qemu_wire_multi_drive_def r1 r2 r3)
  have dh3': "\<forall>d. driver_heap s3 d = map_option clr_driver (?h1 d)"
  proof
    fix d
    show "driver_heap s3 d = map_option clr_driver (?h1 d)"
    proof (cases "Some d \<in> wd_driver ` set wds")
      case True
      then show ?thesis using dh3 by simp
    next
      case False
      then have "d \<notin> written wds ?h" using written_targets by blast
      then have e: "?h1 d = ?h d" by (rule apply_drivers_unwritten)
      have "map_option clr_driver (?h d) = ?h d"
        using st by (cases "?h d") (auto simp: settled_def clr_driver_clean)
      with e False dh3 show ?thesis by simp
    qed
  qed
  have wh3': "\<forall>w. wire_heap s3 w =
                  (if ?M w then map_option (\<lambda>W. clr_wire (resolve ?h1 W)) (wire_heap s w)
                   else wire_heap s w)"
    using wh3 wh2' by (simp add: option.map_comp comp_def)
  have tr3': "\<forall>e. count_list (trace s3) e =
                  count_list (trace s) e +
                  (if ?M (ev_wire e) then
                     (case wire_heap s (ev_wire e) of
                        None \<Rightarrow> 0
                      | Some W \<Rightarrow>
                          (if e = Ev_wire_update (ev_wire e) then 1 else 0) +
                          (if w_changed (resolve ?h1 W)
                           then count_list (sweep_events (ev_wire e) (resolve ?h1 W)) e
                           else 0))
                   else 0)"
  proof
    fix e
    have pu: "?M (ev_wire e) \<Longrightarrow> pending_update s1 e =
        (case wire_heap s (ev_wire e) of None \<Rightarrow> 0
         | Some W \<Rightarrow> (if e = Ev_wire_update (ev_wire e) then 1 else 0))"
      using wh1 by (cases e) (auto simp: pending_update_def split: option.splits)
    have ps: "?M (ev_wire e) \<Longrightarrow> pending_sweep s2 e =
        (case wire_heap s (ev_wire e) of None \<Rightarrow> 0
         | Some W \<Rightarrow> (if w_changed (resolve ?h1 W)
                       then count_list (sweep_events (ev_wire e) (resolve ?h1 W)) e else 0))"
      using wh2' by (auto simp: pending_sweep_def split: option.splits)
    show "count_list (trace s3) e =
                  count_list (trace s) e +
                  (if ?M (ev_wire e) then
                     (case wire_heap s (ev_wire e) of
                        None \<Rightarrow> 0
                      | Some W \<Rightarrow>
                          (if e = Ev_wire_update (ev_wire e) then 1 else 0) +
                          (if w_changed (resolve ?h1 W)
                           then count_list (sweep_events (ev_wire e) (resolve ?h1 W)) e
                           else 0))
                   else 0)"
      using tr3 tr2 pu ps by (auto split: option.splits)
  qed
  from run mh3 dh3' wh3' tr3' show ?thesis by blast
qed

lemma settled_sister: "settled sister_state"
  by (auto simp: settled_def sister_state_def mk_wire_def mk_driver_def split: if_splits)

lemmas eval_defs = qemu_wire_drive_def qemu_wire_multi_drive_def wire_at_def driver_at_def
  put_wire_def put_driver_def log_event_def VECTOR_AT_def VECTOR_SLOT_def vector_del_def
  vector_del_slack_def del_last_match_def del_last_match_slack_def
  wire_update_def wire_commit_def best_init_def wire_notify_if_changed_def
  wire_call_listeners_def qemu_wire_detach_def mk_wire_def mk_driver_def
  STRENGTH_PULL_def STRENGTH_HI_Z_def VALUE_MODE_D_def

subsection \<open>The stale slot of \<open>wire_call_listeners\<close>\<close>

text \<open>When the handler at index 2 unregisters the listeners at indices 1 and 2, the sweep
  goes on to index 1, which is past the new length: the slot still holds listener 3, and
  its handler is called a second time before the sweep reaches index 0.\<close>

lemma wire_call_listeners_stale_slot:
  "\<exists>s'. wire_notify_if_changed three_handlers (Some 0) three_state = returns s' \<and>
     trace s' = [Ev_call_listeners 0, Ev_handler 3 0 0, Ev_handler 3 0 0, Ev_handler 1 0 0]"
  by (simp add: three_state_def three_handlers_def eval_defs qemu_wire_unlisten_def)

subsection \<open>C6: a re-entrant listener\<close>

text \<open>
  Claim C6: the code breaks it when a listener detaches the driven driver from a wire the
  notification walk has passed.  Driver 3 feeds wires 0, 1 and 2, whose flags are all
  clear, and the handler listening on wire 1 detaches driver 3 from wire 0.  Driving
  driver 3 from HI_Z to PULL resolves the three wires and sets \<open>changed\<close> on each.
  Phase 3 walks \<open>driver->wires\<close> forwards and compares the index with the length at
  every step: it calls the handler at index 1, the detach shortens the vector to two
  entries, and the walk ends before it reaches wire 2.  When the call returns, wire 2 has
  been resolved to (PULL, Digital, 1), its \<open>changed\<close> flag is still set and its
  listeners have not been swept.
\<close>

theorem reentrant_detach_skips_wire:
  "map_option (\<lambda>W. (w_changed W, w_driver_changed W, w_in_callback W)) (wire_heap sister_state 0)
     = Some (False, False, False) \<and>
   map_option (\<lambda>W. (w_changed W, w_driver_changed W, w_in_callback W)) (wire_heap sister_state 1)
     = Some (False, False, False) \<and>
   map_option (\<lambda>W. (w_changed W, w_driver_changed W, w_in_callback W)) (wire_heap sister_state 2)
     = Some (False, False, False) \<and>
   map_option d_changed (driver_heap sister_state 3) = Some False \<and>
   (\<exists>s' W. qemu_wire_drive detaching_listener (Some 3) STRENGTH_PULL True sister_state = returns s' \<and>
      wire_heap s' 2 = Some W \<and> w_changed W \<and>
      resolved W = ((STRENGTH_PULL, VALUE_MODE_D, 1), False) \<and>
      count_list (trace s') (Ev_wire_update 2) = 1 \<and>
      count_list (trace s') (Ev_call_listeners 2) = 0)"
  by (simp add: sister_state_def detaching_listener_def eval_defs notify_wires.simps Let_def
      resolved_def)

subsection \<open>The batch, wire by wire\<close>

lemma clr_wire_in_callback: "w_in_callback (clr_wire X) \<Longrightarrow> w_in_callback X"
  by (simp add: clr_wire_def split: if_splits)

lemma count_handler_events:
  "count_list (handler_events w ls) (Ev_handler h q w) =
     length (filter (\<lambda>l. l_handler l = h \<and> l_opaque l = q) ls)"
  by (induction ls) (auto simp: handler_events_def)

lemma count_sweep_events:
  "count_list (sweep_events w X) (Ev_wire_update w) = 0"
  "count_list (sweep_events w X) (Ev_call_listeners w) = 1"
  "count_list (sweep_events w X) (Ev_handler h q w) =
     length (filter (\<lambda>l. l_handler l = h \<and> l_opaque l = q) (w_listeners X))"
proof -
  have a: "\<And>ls. count_list (handler_events w ls) (Ev_wire_update w) = 0"
    by (simp add: handler_events_def count_list_0_iff image_iff)
  have b: "\<And>ls. count_list (handler_events w ls) (Ev_call_listeners w) = 0"
    by (simp add: handler_events_def count_list_0_iff image_iff)
  show "count_list (sweep_events w X) (Ev_wire_update w) = 0"
    by (simp add: sweep_events_def a)
  show "count_list (sweep_events w X) (Ev_call_listeners w) = 1"
    by (simp add: sweep_events_def b)
  have "length (filter (\<lambda>l. l_handler l = h \<and> l_opaque l = q) (rev (w_listeners X))) =
        length (filter (\<lambda>l. l_handler l = h \<and> l_opaque l = q) (w_listeners X))"
    by (simp add: rev_filter[symmetric])
  then show "count_list (sweep_events w X) (Ev_handler h q w) =
     length (filter (\<lambda>l. l_handler l = h \<and> l_opaque l = q) (w_listeners X))"
    by (simp add: sweep_events_def count_handler_events)
qed

text \<open>What a batch does to each wire, in terms of the states before and after it.\<close>

lemma multi_drive_events:
  assumes wf: "well_formed s" and st: "settled s" and vd: "valid_drives s wds"
  shows "\<exists>s'. qemu_wire_multi_drive leaf_listener wds s = returns s' \<and>
           settled s' \<and> well_formed s' \<and>
           (\<forall>d. driver_heap s' d = map_option clr_driver (apply_drivers wds (driver_heap s) d)) \<and>
           (\<forall>w W. wire_heap s w = Some W \<longrightarrow>
              (\<exists>W'. wire_heap s' w = Some W' \<and>
                 W' = (if fed_by_written wds s w
                       then clr_wire (resolve (apply_drivers wds (driver_heap s)) W) else W) \<and>
                 (observable_change W W' \<longrightarrow> fed_by_written wds s w) \<and>
                 count_list (trace s') (Ev_wire_update w) =
                   count_list (trace s) (Ev_wire_update w) +
                   (if fed_by_written wds s w then 1 else 0) \<and>
                 count_list (trace s') (Ev_call_listeners w) =
                   count_list (trace s) (Ev_call_listeners w) +
                   (if observable_change W W' then 1 else 0) \<and>
                 (\<forall>h q. count_list (trace s') (Ev_handler h q w) =
                   count_list (trace s) (Ev_handler h q w) +
                   (if observable_change W W'
                    then length (filter (\<lambda>l. l_handler l = h \<and> l_opaque l = q) (w_listeners W))
                    else 0))))"
proof -
  let ?h1 = "apply_drivers wds (driver_heap s)"
  let ?M = "fed_by_written wds s"
  from multi_drive_closed[OF wf st vd] obtain s' where
    run: "qemu_wire_multi_drive leaf_listener wds s = returns s'"
      and mh: "multi_heap s' = multi_heap s"
      and dh: "\<forall>d. driver_heap s' d = map_option clr_driver (?h1 d)"
      and wh: "\<forall>w. wire_heap s' w =
                  (if ?M w then map_option (\<lambda>W. clr_wire (resolve ?h1 W)) (wire_heap s w)
                   else wire_heap s w)"
      and tr: "\<forall>e. count_list (trace s') e =
                  count_list (trace s) e +
                  (if ?M (ev_wire e) then
                     (case wire_heap s (ev_wire e) of
                        None \<Rightarrow> 0
                      | Some W \<Rightarrow>
                          (if e = Ev_wire_update (ev_wire e) then 1 else 0) +
                          (if w_changed (resolve ?h1 W)
                           then count_list (sweep_events (ev_wire e) (resolve ?h1 W)) e
                           else 0))
                   else 0)"
    by blast
  have flags: "\<And>w W. wire_heap s w = Some W \<Longrightarrow>
      \<not> w_driver_changed W \<and> \<not> w_changed W \<and> \<not> w_in_callback W"
    using st unfolding settled_def by blast
  have wf': "well_formed s'"
    by (rule well_formed_transfer[OF wf])
       (simp_all add: dh wh apply_drivers_wires option.map_comp comp_def)
  have st': "settled s'"
    unfolding settled_def
  proof (rule conjI; intro allI impI)
    fix w W' assume W': "wire_heap s' w = Some W'"
    then obtain W where W: "wire_heap s w = Some W"
      and eq: "W' = (if ?M w then clr_wire (resolve ?h1 W) else W)"
      using wh by (cases "wire_heap s w") (auto split: if_splits)
    from flags[OF W] eq
    show "\<not> w_changed W' \<and> \<not> w_driver_changed W' \<and> \<not> w_in_callback W'"
      by (auto dest: clr_wire_in_callback)
  next
    fix d D' assume "driver_heap s' d = Some D'"
    with dh show "\<not> d_changed D'" by auto
  qed
  have per_wire: "\<forall>w W. wire_heap s w = Some W \<longrightarrow>
              (\<exists>W'. wire_heap s' w = Some W' \<and>
                 W' = (if ?M w then clr_wire (resolve ?h1 W) else W) \<and>
                 (observable_change W W' \<longrightarrow> ?M w) \<and>
                 count_list (trace s') (Ev_wire_update w) =
                   count_list (trace s) (Ev_wire_update w) + (if ?M w then 1 else 0) \<and>
                 count_list (trace s') (Ev_call_listeners w) =
                   count_list (trace s) (Ev_call_listeners w) +
                   (if observable_change W W' then 1 else 0) \<and>
                 (\<forall>h q. count_list (trace s') (Ev_handler h q w) =
                   count_list (trace s) (Ev_handler h q w) +
                   (if observable_change W W'
                    then length (filter (\<lambda>l. l_handler l = h \<and> l_opaque l = q) (w_listeners W))
                    else 0)))"
  proof (intro allI impI)
    fix w W assume W: "wire_heap s w = Some W"
    let ?W' = "if ?M w then clr_wire (resolve ?h1 W) else W"
    have W': "wire_heap s' w = Some ?W'" using wh W by simp
    have ch: "w_changed (resolve ?h1 W) = observable_change W (resolve ?h1 W)"
      using flags[OF W] by (simp add: resolve_changed)
    have oc: "observable_change W ?W' \<longleftrightarrow> ?M w \<and> w_changed (resolve ?h1 W)"
      by (simp add: ch)
    have t1: "count_list (trace s') (Ev_wire_update w) =
                   count_list (trace s) (Ev_wire_update w) + (if ?M w then 1 else 0)"
      using tr[rule_format, of "Ev_wire_update w"] W by (simp add: count_sweep_events)
    have t2: "count_list (trace s') (Ev_call_listeners w) =
                   count_list (trace s) (Ev_call_listeners w) +
                   (if observable_change W ?W' then 1 else 0)"
      using tr[rule_format, of "Ev_call_listeners w"] W unfolding oc
      by (simp add: count_sweep_events)
    have t3: "\<forall>h q. count_list (trace s') (Ev_handler h q w) =
                   count_list (trace s) (Ev_handler h q w) +
                   (if observable_change W ?W'
                    then length (filter (\<lambda>l. l_handler l = h \<and> l_opaque l = q) (w_listeners W))
                    else 0)"
    proof (intro allI)
      fix h q
      show "count_list (trace s') (Ev_handler h q w) =
                   count_list (trace s) (Ev_handler h q w) +
                   (if observable_change W ?W'
                    then length (filter (\<lambda>l. l_handler l = h \<and> l_opaque l = q) (w_listeners W))
                    else 0)"
        using tr[rule_format, of "Ev_handler h q w"] W unfolding oc
        by (simp add: count_sweep_events)
    qed
    from W' oc t1 t2 t3
    show "\<exists>W'. wire_heap s' w = Some W' \<and>
                 W' = (if ?M w then clr_wire (resolve ?h1 W) else W) \<and>
                 (observable_change W W' \<longrightarrow> ?M w) \<and>
                 count_list (trace s') (Ev_wire_update w) =
                   count_list (trace s) (Ev_wire_update w) + (if ?M w then 1 else 0) \<and>
                 count_list (trace s') (Ev_call_listeners w) =
                   count_list (trace s) (Ev_call_listeners w) +
                   (if observable_change W W' then 1 else 0) \<and>
                 (\<forall>h q. count_list (trace s') (Ev_handler h q w) =
                   count_list (trace s) (Ev_handler h q w) +
                   (if observable_change W W'
                    then length (filter (\<lambda>l. l_handler l = h \<and> l_opaque l = q) (w_listeners W))
                    else 0))"
      by blast
  qed
  from run st' wf' dh per_wire show ?thesis by blast
qed

subsection \<open>C3: what a batch resolves and notifies\<close>

lemma well_formed_shadow: "well_formed shadow_state"
  by (auto simp: well_formed_def shadow_state_def mk_wire_def mk_driver_def split: if_splits)

lemma settled_shadow: "settled shadow_state"
  by (auto simp: settled_def shadow_state_def mk_wire_def mk_driver_def split: if_splits)

lemma valid_shadow_batch: "valid_drives shadow_state shadow_batch"
  by (simp add: valid_drives_def shadow_state_def shadow_batch_def)

text \<open>
  Claim C3, as stated, fails.  The batch leaves driver 1 as it is and takes driver 2 from
  HI_Z to (WEAK, Digital, 0).  Wire 0 is attached to driver 2, whose state the batch
  changes: it is resolved once, but the stronger driver 1 still decides its state, so its
  listener is not notified.  Wire 0 is also a wire of driver 1, whose descriptor equals
  its state, and is re-resolved all the same.
\<close>

theorem batch_drive_counterexample:
  "well_formed shadow_state \<and> settled shadow_state \<and> valid_drives shadow_state shadow_batch \<and>
   (\<exists>s' D2. qemu_wire_multi_drive leaf_listener shadow_batch shadow_state = returns s' \<and>
      driver_heap s' 1 = driver_heap shadow_state 1 \<and>
      driver_heap s' 2 = Some D2 \<and> d_strength D2 = STRENGTH_WEAK \<and>
      count_list (trace s') (Ev_wire_update 0) = 1 \<and>
      count_list (trace s') (Ev_call_listeners 0) = 0 \<and>
      count_list (trace s') (Ev_handler 9 0 0) = 0)"
  apply (intro conjI well_formed_shadow settled_shadow valid_shadow_batch)
  apply (simp add: shadow_state_def shadow_batch_def eval_defs notify_wires.simps Let_def
      leaf_listener_def STRENGTH_STRONG_def STRENGTH_WEAK_def)
  done

text \<open>
  Claim C3, amended.  From a settled, well-formed state and with listeners that do not
  call back, a batch returns, and for every wire \<open>w\<close>:
  \<^item> \<open>wire_update\<close> runs on \<open>w\<close> exactly once if phase 1 writes a driver that feeds \<open>w\<close>,
    and not at all otherwise (a driver fed by several written drivers included);
  \<^item> the listeners of \<open>w\<close> are swept at most once: exactly once, each registered listener
    being called once per registration, if the cached state of \<open>w\<close> changes observably
    (the change predicate of section 4.1), and not at all otherwise;
  \<^item> a wire no written driver feeds keeps its state.
  A driver whose drive state differs after the batch was written, so all its wires are
  resolved; a wire all of whose drivers only get descriptors equal to their state is
  neither resolved nor notified.
\<close>

theorem batch_drive_once:
  assumes "well_formed s" and "settled s" and "valid_drives s drives"
  shows "\<exists>s'. qemu_wire_multi_drive leaf_listener drives s = returns s' \<and>
           (\<forall>w W. wire_heap s w = Some W \<longrightarrow>
              (\<exists>W'. wire_heap s' w = Some W' \<and>
                 count_list (trace s') (Ev_wire_update w) =
                   count_list (trace s) (Ev_wire_update w) +
                   (if fed_by_written drives s w then 1 else 0) \<and>
                 count_list (trace s') (Ev_call_listeners w) =
                   count_list (trace s) (Ev_call_listeners w) +
                   (if observable_change W W' then 1 else 0) \<and>
                 (\<forall>h q. count_list (trace s') (Ev_handler h q w) =
                   count_list (trace s) (Ev_handler h q w) +
                   (if observable_change W W'
                    then length (filter (\<lambda>l. l_handler l = h \<and> l_opaque l = q) (w_listeners W))
                    else 0)) \<and>
                 (observable_change W W' \<longrightarrow> fed_by_written drives s w) \<and>
                 (\<not> fed_by_written drives s w \<longrightarrow> W' = W))) \<and>
           (\<forall>d D D' w. driver_heap s d = Some D \<longrightarrow> driver_heap s' d = Some D' \<longrightarrow>
              signal_of D' \<noteq> signal_of D \<longrightarrow> feeds (driver_heap s) d w \<longrightarrow>
              fed_by_written drives s w) \<and>
           (\<forall>w. (\<forall>d D. driver_heap s d = Some D \<longrightarrow> feeds (driver_heap s) d w \<longrightarrow>
                    (\<forall>wd\<in>set drives. wd_driver wd = Some d \<longrightarrow> same_drive D wd)) \<longrightarrow>
                 \<not> fed_by_written drives s w)"
proof -
  from multi_drive_events[OF assms] obtain s' where
    run: "qemu_wire_multi_drive leaf_listener drives s = returns s'"
      and dh: "\<forall>d. driver_heap s' d = map_option clr_driver (apply_drivers drives (driver_heap s) d)"
      and pw: "\<forall>w W. wire_heap s w = Some W \<longrightarrow>
              (\<exists>W'. wire_heap s' w = Some W' \<and>
                 W' = (if fed_by_written drives s w
                       then clr_wire (resolve (apply_drivers drives (driver_heap s)) W) else W) \<and>
                 (observable_change W W' \<longrightarrow> fed_by_written drives s w) \<and>
                 count_list (trace s') (Ev_wire_update w) =
                   count_list (trace s) (Ev_wire_update w) +
                   (if fed_by_written drives s w then 1 else 0) \<and>
                 count_list (trace s') (Ev_call_listeners w) =
                   count_list (trace s) (Ev_call_listeners w) +
                   (if observable_change W W' then 1 else 0) \<and>
                 (\<forall>h q. count_list (trace s') (Ev_handler h q w) =
                   count_list (trace s) (Ev_handler h q w) +
                   (if observable_change W W'
                    then length (filter (\<lambda>l. l_handler l = h \<and> l_opaque l = q) (w_listeners W))
                    else 0)))"
    by blast
  have a: "\<forall>w W. wire_heap s w = Some W \<longrightarrow>
              (\<exists>W'. wire_heap s' w = Some W' \<and>
                 count_list (trace s') (Ev_wire_update w) =
                   count_list (trace s) (Ev_wire_update w) +
                   (if fed_by_written drives s w then 1 else 0) \<and>
                 count_list (trace s') (Ev_call_listeners w) =
                   count_list (trace s) (Ev_call_listeners w) +
                   (if observable_change W W' then 1 else 0) \<and>
                 (\<forall>h q. count_list (trace s') (Ev_handler h q w) =
                   count_list (trace s) (Ev_handler h q w) +
                   (if observable_change W W'
                    then length (filter (\<lambda>l. l_handler l = h \<and> l_opaque l = q) (w_listeners W))
                    else 0)) \<and>
                 (observable_change W W' \<longrightarrow> fed_by_written drives s w) \<and>
                 (\<not> fed_by_written drives s w \<longrightarrow> W' = W))"
  proof (intro allI impI)
    fix w W assume "wire_heap s w = Some W"
    with pw obtain W' where
      h: "wire_heap s' w = Some W'"
      and eq: "W' = (if fed_by_written drives s w
             then clr_wire (resolve (apply_drivers drives (driver_heap s)) W) else W)"
      and oc: "observable_change W W' \<longrightarrow> fed_by_written drives s w"
      and t1: "count_list (trace s') (Ev_wire_update w) =
         count_list (trace s) (Ev_wire_update w) + (if fed_by_written drives s w then 1 else 0)"
      and t2: "count_list (trace s') (Ev_call_listeners w) =
         count_list (trace s) (Ev_call_listeners w) + (if observable_change W W' then 1 else 0)"
      and t3: "\<forall>h q. count_list (trace s') (Ev_handler h q w) =
         count_list (trace s) (Ev_handler h q w) +
         (if observable_change W W'
          then length (filter (\<lambda>l. l_handler l = h \<and> l_opaque l = q) (w_listeners W))
          else 0)"
      by blast
    from eq have nf: "\<not> fed_by_written drives s w \<longrightarrow> W' = W" by simp
    from h t1 t2 t3 oc nf
    show "\<exists>W'. wire_heap s' w = Some W' \<and>
                 count_list (trace s') (Ev_wire_update w) =
                   count_list (trace s) (Ev_wire_update w) +
                   (if fed_by_written drives s w then 1 else 0) \<and>
                 count_list (trace s') (Ev_call_listeners w) =
                   count_list (trace s) (Ev_call_listeners w) +
                   (if observable_change W W' then 1 else 0) \<and>
                 (\<forall>h q. count_list (trace s') (Ev_handler h q w) =
                   count_list (trace s) (Ev_handler h q w) +
                   (if observable_change W W'
                    then length (filter (\<lambda>l. l_handler l = h \<and> l_opaque l = q) (w_listeners W))
                    else 0)) \<and>
                 (observable_change W W' \<longrightarrow> fed_by_written drives s w) \<and>
                 (\<not> fed_by_written drives s w \<longrightarrow> W' = W)"
      by blast
  qed
  have b: "\<forall>d D D' w. driver_heap s d = Some D \<longrightarrow> driver_heap s' d = Some D' \<longrightarrow>
              signal_of D' \<noteq> signal_of D \<longrightarrow> feeds (driver_heap s) d w \<longrightarrow>
              fed_by_written drives s w"
  proof (intro allI impI)
    fix d D D' w
    assume D: "driver_heap s d = Some D" and D': "driver_heap s' d = Some D'"
      and ne: "signal_of D' \<noteq> signal_of D" and f: "feeds (driver_heap s) d w"
    have "d \<in> written drives (driver_heap s)"
    proof (rule ccontr)
      assume "d \<notin> written drives (driver_heap s)"
      then have "apply_drivers drives (driver_heap s) d = Some D"
        using D by (simp add: apply_drivers_unwritten)
      with dh D' have "D' = clr_driver D" by simp
      with ne show False by (simp add: signal_of_def)
    qed
    with f show "fed_by_written drives s w" unfolding fed_by_written_def by blast
  qed
  have c: "\<forall>w. (\<forall>d D. driver_heap s d = Some D \<longrightarrow> feeds (driver_heap s) d w \<longrightarrow>
                    (\<forall>wd\<in>set drives. wd_driver wd = Some d \<longrightarrow> same_drive D wd)) \<longrightarrow>
                 \<not> fed_by_written drives s w"
  proof (intro allI impI notI)
    fix w
    assume all: "\<forall>d D. driver_heap s d = Some D \<longrightarrow> feeds (driver_heap s) d w \<longrightarrow>
                    (\<forall>wd\<in>set drives. wd_driver wd = Some d \<longrightarrow> same_drive D wd)"
      and "fed_by_written drives s w"
    then obtain d where d: "d \<in> written drives (driver_heap s)" "feeds (driver_heap s) d w"
      unfolding fed_by_written_def by blast
    from d(2) obtain D where D: "driver_heap s d = Some D"
      by (auto simp: feeds_def split: option.splits)
    with all d(2) have "\<forall>wd\<in>set drives. wd_driver wd = Some d \<longrightarrow> same_drive D wd" by blast
    from written_none[of "driver_heap s" d D drives, OF D this] d(1) show False by contradiction
  qed
  from run a b c show ?thesis by blast
qed

theorem batch_drive_once_witness:
  "\<exists>s' W'. qemu_wire_multi_drive leaf_listener shadow_batch shadow_state = returns s' \<and>
      wire_heap s' 0 = Some W' \<and>
      count_list (trace s') (Ev_wire_update 0) = 1 \<and>
      count_list (trace s') (Ev_call_listeners 0) =
        (if observable_change
              ((mk_wire [Some 1, Some 2] [\<lparr>l_handler = 9, l_opaque = 0\<rparr>])
                  \<lparr>w_value := 1, w_strength := STRENGTH_STRONG\<rparr>) W'
         then 1 else 0)"
proof -
  let ?W = "(mk_wire [Some 1, Some 2] [\<lparr>l_handler = 9, l_opaque = 0\<rparr>])
                  \<lparr>w_value := 1, w_strength := STRENGTH_STRONG\<rparr>"
  have W: "wire_heap shadow_state 0 = Some ?W" by (simp add: shadow_state_def)
  have tr: "trace shadow_state = []" by (simp add: shadow_state_def)
  have fed: "fed_by_written shadow_batch shadow_state 0"
    by (simp add: fed_by_written_def shadow_batch_def shadow_state_def same_drive_def
        mk_driver_def feeds_def STRENGTH_STRONG_def STRENGTH_WEAK_def STRENGTH_HI_Z_def)
  from batch_drive_once[OF well_formed_shadow settled_shadow valid_shadow_batch]
  obtain s' where run: "qemu_wire_multi_drive leaf_listener shadow_batch shadow_state = returns s'"
    and a: "\<forall>w W. wire_heap shadow_state w = Some W \<longrightarrow>
              (\<exists>W'. wire_heap s' w = Some W' \<and>
                 count_list (trace s') (Ev_wire_update w) =
                   count_list (trace shadow_state) (Ev_wire_update w) +
                   (if fed_by_written shadow_batch shadow_state w then 1 else 0) \<and>
                 count_list (trace s') (Ev_call_listeners w) =
                   count_list (trace shadow_state) (Ev_call_listeners w) +
                   (if observable_change W W' then 1 else 0) \<and>
                 (\<forall>h q. count_list (trace s') (Ev_handler h q w) =
                   count_list (trace shadow_state) (Ev_handler h q w) +
                   (if observable_change W W'
                    then length (filter (\<lambda>l. l_handler l = h \<and> l_opaque l = q) (w_listeners W))
                    else 0)) \<and>
                 (observable_change W W' \<longrightarrow> fed_by_written shadow_batch shadow_state w) \<and>
                 (\<not> fed_by_written shadow_batch shadow_state w \<longrightarrow> W' = W))"
    by blast
  from a[rule_format, OF W] obtain W' where
    "wire_heap s' 0 = Some W'"
    "count_list (trace s') (Ev_wire_update 0) =
       count_list (trace shadow_state) (Ev_wire_update 0) +
       (if fed_by_written shadow_batch shadow_state 0 then 1 else 0)"
    "count_list (trace s') (Ev_call_listeners 0) =
       count_list (trace shadow_state) (Ev_call_listeners 0) +
       (if observable_change ?W W' then 1 else 0)"
    by blast
  with run fed tr show ?thesis by simp
qed

subsection \<open>C8: a change of strength alone\<close>

lemma well_formed_pull: "well_formed pull_state"
  by (auto simp: well_formed_def pull_state_def mk_wire_def mk_driver_def split: if_splits)

lemma settled_pull: "settled pull_state"
  by (auto simp: settled_def pull_state_def mk_wire_def mk_driver_def split: if_splits)

lemma valid_pull_batch: "valid_drives pull_state pull_batch"
  by (simp add: valid_drives_def pull_state_def pull_batch_def)







subsection \<open>C10: the 3-bit strength field\<close>

lemma unat_ucast_three_bits: "unat (ucast (x :: 32 word) :: 3 word) = unat x mod 8"
  by (simp add: unsigned_ucast_eq take_bit_eq_mod)

lemma resolved_resolve:
  "resolved (clr_wire (resolve h W)) =
     resolver_spec (rev (map (\<lambda>p. signal_of (the (h (the p)))) (w_attachments W)))"
  by (simp add: resolved_def resolve_def wire_commit_def with_signal_def Let_def clr_wire_def)

lemma signal_of_clr_driver [simp]: "signal_of (clr_driver D) = signal_of D"
  by (simp add: signal_of_def)

text \<open>A batch of one descriptor naming a live driver \<open>d\<close>: the driver ends with the
  descriptor's signal, and if the descriptor differs from what the driver held, each wire
  the driver feeds caches the resolver's output over the final driver store.\<close>

lemma single_drive_stored:
  assumes wf: "well_formed s" and st: "settled s" and dh: "driver_heap s d = Some D"
    and wd: "wd_driver wd = Some d"
  shows "\<exists>s' D'. qemu_wire_multi_drive leaf_listener [wd] s = returns s' \<and>
           driver_heap s' d = Some D' \<and> signal_of D' = drive_signal wd \<and>
           (\<forall>w W. wire_heap s w = Some W \<longrightarrow> Some w \<in> set (d_wires D) \<longrightarrow>
                  signal_of D \<noteq> drive_signal wd \<longrightarrow>
                  (\<exists>W'. wire_heap s' w = Some W' \<and> w_attachments W' = w_attachments W \<and>
                        resolved W' = resolver_output s' W'))"
proof -
  let ?h = "driver_heap s"
  let ?h' = "apply_drivers [wd] ?h"
  have vd: "valid_drives s [wd]"
    using dh wd by (simp add: valid_drives_def dom_def)
  from multi_drive_events[OF wf st vd] obtain s' where
    run: "qemu_wire_multi_drive leaf_listener [wd] s = returns s'"
    and dr: "\<forall>x. driver_heap s' x = map_option clr_driver (?h' x)"
    and pw: "\<forall>w W. wire_heap s w = Some W \<longrightarrow>
              (\<exists>W'. wire_heap s' w = Some W' \<and>
                 W' = (if fed_by_written [wd] s w then clr_wire (resolve ?h' W) else W))"
    by blast
  have hd: "?h' d = Some (if same_drive D wd then D else write_drive D wd)"
    using dh wd by simp
  let ?D' = "clr_driver (if same_drive D wd then D else write_drive D wd)"
  have d1: "driver_heap s' d = Some ?D'"
    using dr hd by simp
  have d2: "signal_of ?D' = drive_signal wd"
    by (simp add: same_drive_signal drive_signal_def)
  have wires: "\<exists>W'. wire_heap s' w = Some W' \<and> w_attachments W' = w_attachments W \<and>
                    resolved W' = resolver_output s' W'"
    if W: "wire_heap s w = Some W" and fd: "Some w \<in> set (d_wires D)"
      and ne: "signal_of D \<noteq> drive_signal wd" for w W
  proof -
    from ne have ns: "\<not> same_drive D wd"
      by (simp add: same_drive_signal drive_signal_def)
    have wr: "written [wd] ?h = {d}"
      using dh wd ns by simp
    have fw: "fed_by_written [wd] s w"
      unfolding fed_by_written_def wr using dh fd by (simp add: feeds_def)
    from pw W obtain W' where W': "wire_heap s' w = Some W'"
      and eq': "W' = (if fed_by_written [wd] s w then clr_wire (resolve ?h' W) else W)"
      by blast
    from eq' fw have eq: "W' = clr_wire (resolve ?h' W)" by simp
    have att: "w_attachments W' = w_attachments W"
      unfolding eq by simp
    have sig: "signal_of (the (driver_heap s' (the p))) = signal_of (the (?h' (the p)))"
      if p: "p \<in> set (w_attachments W)" for p
    proof -
      from wf W p obtain x where x: "p = Some x" and xd: "x \<in> dom ?h"
        unfolding well_formed_def by blast
      from xd have "x \<in> dom ?h'" unfolding dom_apply_drivers .
      then obtain X where X: "?h' x = Some X" by blast
      show ?thesis unfolding x using dr X by simp
    qed
    have "resolver_output s' W' =
        resolver_spec (rev (map (\<lambda>p. signal_of (the (driver_heap s' (the p)))) (w_attachments W)))"
      unfolding resolver_output_def att ..
    also have "map (\<lambda>p. signal_of (the (driver_heap s' (the p)))) (w_attachments W) =
               map (\<lambda>p. signal_of (the (?h' (the p)))) (w_attachments W)"
      using sig by (intro map_cong refl) 
    also have "resolver_spec (rev (map (\<lambda>p. signal_of (the (?h' (the p)))) (w_attachments W)))
               = resolved W'"
      unfolding eq by (rule resolved_resolve[symmetric])
    finally have "resolved W' = resolver_output s' W'" by simp
    with W' att show ?thesis by blast
  qed
  from run d1 d2 wires show ?thesis by blast
qed

lemma single_drive_strength:
  assumes wf: "well_formed s" and st: "settled s" and dh: "driver_heap s d = Some D"
    and wd: "wd_driver wd = Some d" and str: "wd_strength wd = ucast (strength :: 32 word)"
  shows "\<exists>s' D'. qemu_wire_multi_drive leaf_listener [wd] s = returns s' \<and>
           driver_heap s' d = Some D' \<and> unat (d_strength D') = unat strength mod 8 \<and>
           (strength = 8 \<longrightarrow> d_strength D' = STRENGTH_HI_Z) \<and>
           (\<forall>w W. wire_heap s w = Some W \<longrightarrow> Some w \<in> set (d_wires D) \<longrightarrow>
                  d_strength D \<noteq> d_strength D' \<longrightarrow>
                  (\<exists>W'. wire_heap s' w = Some W' \<and> w_attachments W' = w_attachments W \<and>
                        resolved W' = resolver_output s' W'))"
proof -
  from single_drive_stored[OF wf st dh wd] obtain s' D' where
    run: "qemu_wire_multi_drive leaf_listener [wd] s = returns s'"
    and d1: "driver_heap s' d = Some D'" and d2: "signal_of D' = drive_signal wd"
    and wires: "\<forall>w W. wire_heap s w = Some W \<longrightarrow> Some w \<in> set (d_wires D) \<longrightarrow>
                  signal_of D \<noteq> drive_signal wd \<longrightarrow>
                  (\<exists>W'. wire_heap s' w = Some W' \<and> w_attachments W' = w_attachments W \<and>
                        resolved W' = resolver_output s' W')"
    by blast
  from d2 str have ds: "d_strength D' = ucast strength"
    by (simp add: signal_of_def drive_signal_def)
  have m: "unat (d_strength D') = unat strength mod 8"
    unfolding ds by (rule unat_ucast_three_bits)
  have z: "strength = 8 \<longrightarrow> d_strength D' = STRENGTH_HI_Z"
    unfolding ds by (simp add: STRENGTH_HI_Z_def)
  have ne: "signal_of D \<noteq> drive_signal wd" if "d_strength D \<noteq> d_strength D'"
  proof
    assume "signal_of D = drive_signal wd"
    with d2 have "signal_of D = signal_of D'" by simp
    then have "d_strength D = d_strength D'" by (simp add: signal_of_def)
    with that show False by simp
  qed
  from run d1 m z wires ne show ?thesis by blast
qed

lemma apply_drivers_last:
  "h d = Some D \<Longrightarrow>
   \<exists>D'. apply_drivers wds h d = Some D' \<and>
     signal_of D' = (case last_drive wds d of None \<Rightarrow> signal_of D | Some wd \<Rightarrow> drive_signal wd)"
proof (induction wds arbitrary: h D)
  case Nil
  then show ?case by simp
next
  case (Cons wd wds)
  show ?case
  proof (cases "wd_driver wd = Some d")
    case True
    show ?thesis
    proof (cases "same_drive D wd")
      case same: True
      then have sig: "signal_of D = drive_signal wd"
        by (simp add: same_drive_signal drive_signal_def)
      from Cons.IH[of h D, OF Cons.prems] obtain D' where
        D': "apply_drivers wds h d = Some D'"
        and s': "signal_of D' = (case last_drive wds d of None \<Rightarrow> signal_of D | Some wd \<Rightarrow> drive_signal wd)"
        by blast
      from True same Cons.prems have "apply_drivers (wd # wds) h d = Some D'"
        using D' by simp
      moreover have "signal_of D' =
          (case last_drive (wd # wds) d of None \<Rightarrow> signal_of D | Some wd \<Rightarrow> drive_signal wd)"
        using s' sig True by (simp split: option.splits)
      ultimately show ?thesis by blast
    next
      case diff: False
      let ?h = "h(d \<mapsto> write_drive D wd)"
      have hd: "?h d = Some (write_drive D wd)" by simp
      from Cons.IH[of ?h "write_drive D wd", OF hd] obtain D' where
        D': "apply_drivers wds ?h d = Some D'"
        and s': "signal_of D' = (case last_drive wds d of None \<Rightarrow> signal_of (write_drive D wd)
                                  | Some wd \<Rightarrow> drive_signal wd)"
        by blast
      from True diff Cons.prems have "apply_drivers (wd # wds) h d = Some D'"
        using D' by simp
      moreover have "signal_of D' =
          (case last_drive (wd # wds) d of None \<Rightarrow> signal_of D | Some wd \<Rightarrow> drive_signal wd)"
        using s' True by (simp add: drive_signal_def split: option.splits)
      ultimately show ?thesis by blast
    qed
  next
    case False
    have ld: "last_drive (wd # wds) d = last_drive wds d"
      using False by (simp split: option.splits)
    have "\<exists>h'. apply_drivers (wd # wds) h = apply_drivers wds h' \<and> h' d = Some D"
    proof (cases "wd_driver wd")
      case None
      then show ?thesis using Cons.prems by auto
    next
      case (Some d')
      with False have ne: "d' \<noteq> d" by simp
      show ?thesis
      proof (cases "h d'")
        case None
        with Some Cons.prems show ?thesis by auto
      next
        case (Some D0)
        show ?thesis
        proof (cases "same_drive D0 wd")
          case True
          with \<open>wd_driver wd = Some d'\<close> Some Cons.prems show ?thesis by auto
        next
          case False
          have "apply_drivers (wd # wds) h = apply_drivers wds (h(d' \<mapsto> write_drive D0 wd))"
            using \<open>wd_driver wd = Some d'\<close> Some False by simp
          moreover have "(h(d' \<mapsto> write_drive D0 wd)) d = Some D"
            using ne Cons.prems by simp
          ultimately show ?thesis by blast
        qed
      qed
    qed
    then obtain h' where eq: "apply_drivers (wd # wds) h = apply_drivers wds h'"
      and h': "h' d = Some D" by blast
    from Cons.IH[of h' D, OF h'] show ?thesis unfolding eq ld .
  qed
qed


lemma fed_wire_resolved:
  assumes wf: "well_formed s"
    and dr: "\<forall>x. driver_heap s' x = map_option clr_driver (apply_drivers wds (driver_heap s) x)"
    and W: "wire_heap s w = Some W"
    and eq: "W' = clr_wire (resolve (apply_drivers wds (driver_heap s)) W)"
  shows "w_attachments W' = w_attachments W \<and> resolved W' = resolver_output s' W'"
proof -
  let ?h = "driver_heap s"
  let ?h' = "apply_drivers wds ?h"
  have att: "w_attachments W' = w_attachments W"
    unfolding eq by simp
  have sig: "signal_of (the (driver_heap s' (the p))) = signal_of (the (?h' (the p)))"
    if p: "p \<in> set (w_attachments W)" for p
  proof -
    from wf W p obtain x where x: "p = Some x" and xd: "x \<in> dom ?h"
      unfolding well_formed_def by blast
    from xd have "x \<in> dom ?h'" unfolding dom_apply_drivers .
    then obtain X where X: "?h' x = Some X" by blast
    show ?thesis unfolding x using dr X by simp
  qed
  have "resolver_output s' W' =
      resolver_spec (rev (map (\<lambda>p. signal_of (the (driver_heap s' (the p)))) (w_attachments W)))"
    unfolding resolver_output_def att ..
  also have "map (\<lambda>p. signal_of (the (driver_heap s' (the p)))) (w_attachments W) =
             map (\<lambda>p. signal_of (the (?h' (the p)))) (w_attachments W)"
    using sig by (intro map_cong refl)
  also have "resolver_spec (rev (map (\<lambda>p. signal_of (the (?h' (the p)))) (w_attachments W)))
             = resolved W'"
    unfolding eq by (rule resolved_resolve[symmetric])
  finally have "resolved W' = resolver_output s' W'" by simp
  with att show ?thesis by blast
qed

text \<open>A batch over live drivers: each driver ends with the signal of the last descriptor
  that names it, and each wire fed by a driver whose signal changed caches the resolver's
  output over the final driver store.\<close>

lemma batch_drive_stored:
  assumes wf: "well_formed s" and st: "settled s" and vd: "valid_drives s drives"
  shows "\<exists>s'. qemu_wire_multi_drive leaf_listener drives s = returns s' \<and>
           (\<forall>d D. driver_heap s d = Some D \<longrightarrow>
              (\<exists>D'. driver_heap s' d = Some D' \<and>
                 signal_of D' = (case last_drive drives d of None \<Rightarrow> signal_of D
                                 | Some wd \<Rightarrow> drive_signal wd))) \<and>
           (\<forall>w W d D D'. wire_heap s w = Some W \<longrightarrow> driver_heap s d = Some D \<longrightarrow>
              Some w \<in> set (d_wires D) \<longrightarrow> driver_heap s' d = Some D' \<longrightarrow>
              signal_of D' \<noteq> signal_of D \<longrightarrow>
              (\<exists>W'. wire_heap s' w = Some W' \<and> w_attachments W' = w_attachments W \<and>
                    resolved W' = resolver_output s' W'))"
proof -
  let ?h = "driver_heap s"
  let ?h' = "apply_drivers drives ?h"
  from multi_drive_events[OF wf st vd] obtain s' where
    run: "qemu_wire_multi_drive leaf_listener drives s = returns s'"
    and dr: "\<forall>x. driver_heap s' x = map_option clr_driver (?h' x)"
    and pw: "\<forall>w W. wire_heap s w = Some W \<longrightarrow>
              (\<exists>W'. wire_heap s' w = Some W' \<and>
                 W' = (if fed_by_written drives s w then clr_wire (resolve ?h' W) else W))"
    by blast
  have drivers: "\<exists>D'. driver_heap s' d = Some D' \<and>
      signal_of D' = (case last_drive drives d of None \<Rightarrow> signal_of D | Some wd \<Rightarrow> drive_signal wd)"
    if D: "driver_heap s d = Some D" for d D
  proof -
    from apply_drivers_last[of ?h d D drives, OF D] obtain D1 where
      D1: "?h' d = Some D1"
      and s1: "signal_of D1 = (case last_drive drives d of None \<Rightarrow> signal_of D
                               | Some wd \<Rightarrow> drive_signal wd)"
      by blast
    from dr D1 have "driver_heap s' d = Some (clr_driver D1)" by simp
    moreover have "signal_of (clr_driver D1) = signal_of D1" by simp
    ultimately show ?thesis using s1 by simp
  qed
  have wires: "\<exists>W'. wire_heap s' w = Some W' \<and> w_attachments W' = w_attachments W \<and>
                    resolved W' = resolver_output s' W'"
    if W: "wire_heap s w = Some W" and D: "driver_heap s d = Some D"
      and fd: "Some w \<in> set (d_wires D)" and D': "driver_heap s' d = Some D'"
      and ne: "signal_of D' \<noteq> signal_of D" for w W d D D'
  proof -
    have wr: "d \<in> written drives ?h"
    proof (rule ccontr)
      assume "d \<notin> written drives ?h"
      then have "?h' d = ?h d" by (rule apply_drivers_unwritten)
      with dr D have "driver_heap s' d = Some (clr_driver D)" by simp
      with D' have "D' = clr_driver D" by simp
      then have "signal_of D' = signal_of D" by simp
      with ne show False by simp
    qed
    have "feeds ?h d w" using D fd by (simp add: feeds_def)
    with wr have fw: "fed_by_written drives s w"
      unfolding fed_by_written_def by blast
    from pw W obtain W' where W': "wire_heap s' w = Some W'"
      and eq': "W' = (if fed_by_written drives s w then clr_wire (resolve ?h' W) else W)"
      by blast
    from eq' fw have eq: "W' = clr_wire (resolve ?h' W)" by simp
    from fed_wire_resolved[OF wf dr W eq] W' show ?thesis by blast
  qed
  from run drivers wires show ?thesis by blast
qed


text \<open>
  C10.  The strength of a drive request passes through the 3-bit field of the descriptor
  into the 3-bit field of the driver.  From a settled, well-formed state with listeners
  that do not call back, and for a live driver: \<open>qemu_wire_drive\<close> and
  \<open>qemu_wire_drive_a\<close> return, the strength the driver then holds is the requested
  strength modulo 8, and a request of 8 leaves the driver at HI_Z; \<open>qemu_wire_drive_z\<close>
  leaves the driver at HI_Z; after \<open>qemu_wire_multi_drive\<close> each driver holds the
  strength field of the last descriptor that names it, which is modulo 8 whatever number
  was assigned to that field.  In all four, whenever the stored strength differs from the
  one held before, each wire the driver feeds caches the output of the resolver over the
  drivers as stored.
\<close>

theorem drive_strength_three_bits:
  assumes "well_formed s" and "settled s" and "driver_heap s d = Some D"
  shows "(\<exists>s' D'. qemu_wire_drive leaf_listener (Some d) strength dval s = returns s' \<and>
           driver_heap s' d = Some D' \<and> unat (d_strength D') = unat strength mod 8 \<and>
           (strength = 8 \<longrightarrow> d_strength D' = STRENGTH_HI_Z) \<and>
           (\<forall>w W. wire_heap s w = Some W \<longrightarrow> Some w \<in> set (d_wires D) \<longrightarrow>
                  d_strength D \<noteq> d_strength D' \<longrightarrow>
                  (\<exists>W'. wire_heap s' w = Some W' \<and> w_attachments W' = w_attachments W \<and>
                        resolved W' = resolver_output s' W'))) \<and>
         (\<exists>s' D'. qemu_wire_drive_a leaf_listener (Some d) strength aval s = returns s' \<and>
           driver_heap s' d = Some D' \<and> unat (d_strength D') = unat strength mod 8 \<and>
           (strength = 8 \<longrightarrow> d_strength D' = STRENGTH_HI_Z) \<and>
           (\<forall>w W. wire_heap s w = Some W \<longrightarrow> Some w \<in> set (d_wires D) \<longrightarrow>
                  d_strength D \<noteq> d_strength D' \<longrightarrow>
                  (\<exists>W'. wire_heap s' w = Some W' \<and> w_attachments W' = w_attachments W \<and>
                        resolved W' = resolver_output s' W'))) \<and>
         (\<exists>s' D'. qemu_wire_drive_z leaf_listener (Some d) s = returns s' \<and>
           driver_heap s' d = Some D' \<and> d_strength D' = STRENGTH_HI_Z \<and>
           (\<forall>w W. wire_heap s w = Some W \<longrightarrow> Some w \<in> set (d_wires D) \<longrightarrow>
                  d_strength D \<noteq> d_strength D' \<longrightarrow>
                  (\<exists>W'. wire_heap s' w = Some W' \<and> w_attachments W' = w_attachments W \<and>
                        resolved W' = resolver_output s' W'))) \<and>
         (valid_drives s drives \<longrightarrow>
          (\<exists>s'. qemu_wire_multi_drive leaf_listener drives s = returns s' \<and>
            (\<forall>x X wd. driver_heap s x = Some X \<longrightarrow> last_drive drives x = Some wd \<longrightarrow>
               (\<exists>X'. driver_heap s' x = Some X' \<and> d_strength X' = wd_strength wd \<and>
                  (\<forall>k :: 32 word. wd_strength wd = ucast k \<longrightarrow>
                     unat (d_strength X') = unat k mod 8))) \<and>
            (\<forall>w W x X X'. wire_heap s w = Some W \<longrightarrow> driver_heap s x = Some X \<longrightarrow>
               Some w \<in> set (d_wires X) \<longrightarrow> driver_heap s' x = Some X' \<longrightarrow>
               d_strength X \<noteq> d_strength X' \<longrightarrow>
               (\<exists>W'. wire_heap s' w = Some W' \<and> w_attachments W' = w_attachments W \<and>
                     resolved W' = resolver_output s' W'))))"
proof -
  have a: "\<exists>s' D'. qemu_wire_drive leaf_listener (Some d) strength dval s = returns s' \<and>
           driver_heap s' d = Some D' \<and> unat (d_strength D') = unat strength mod 8 \<and>
           (strength = 8 \<longrightarrow> d_strength D' = STRENGTH_HI_Z) \<and>
           (\<forall>w W. wire_heap s w = Some W \<longrightarrow> Some w \<in> set (d_wires D) \<longrightarrow>
                  d_strength D \<noteq> d_strength D' \<longrightarrow>
                  (\<exists>W'. wire_heap s' w = Some W' \<and> w_attachments W' = w_attachments W \<and>
                        resolved W' = resolver_output s' W'))"
    unfolding qemu_wire_drive_def
    by (rule single_drive_strength[OF assms]) simp_all
  have b: "\<exists>s' D'. qemu_wire_drive_a leaf_listener (Some d) strength aval s = returns s' \<and>
           driver_heap s' d = Some D' \<and> unat (d_strength D') = unat strength mod 8 \<and>
           (strength = 8 \<longrightarrow> d_strength D' = STRENGTH_HI_Z) \<and>
           (\<forall>w W. wire_heap s w = Some W \<longrightarrow> Some w \<in> set (d_wires D) \<longrightarrow>
                  d_strength D \<noteq> d_strength D' \<longrightarrow>
                  (\<exists>W'. wire_heap s' w = Some W' \<and> w_attachments W' = w_attachments W \<and>
                        resolved W' = resolver_output s' W'))"
    unfolding qemu_wire_drive_a_def
    by (rule single_drive_strength[OF assms]) simp_all
  have c: "\<exists>s' D'. qemu_wire_drive_z leaf_listener (Some d) s = returns s' \<and>
           driver_heap s' d = Some D' \<and> d_strength D' = STRENGTH_HI_Z \<and>
           (\<forall>w W. wire_heap s w = Some W \<longrightarrow> Some w \<in> set (d_wires D) \<longrightarrow>
                  d_strength D \<noteq> d_strength D' \<longrightarrow>
                  (\<exists>W'. wire_heap s' w = Some W' \<and> w_attachments W' = w_attachments W \<and>
                        resolved W' = resolver_output s' W'))"
  proof -
    let ?wd = "\<lparr>wd_driver = Some d, wd_value = 0, wd_strength = ucast (STRENGTH_HI_Z :: 32 word),
                wd_value_mode = VALUE_MODE_D\<rparr>"
    have z: "qemu_wire_drive_z leaf_listener (Some d) s = qemu_wire_multi_drive leaf_listener [?wd] s"
      by (simp add: qemu_wire_drive_z_def qemu_wire_drive_def)
    from single_drive_strength[OF assms, of ?wd STRENGTH_HI_Z] obtain s' D' where
      run: "qemu_wire_multi_drive leaf_listener [?wd] s = returns s'"
      and d1: "driver_heap s' d = Some D'"
      and m: "unat (d_strength D') = unat (STRENGTH_HI_Z :: 32 word) mod 8"
      and wires: "\<forall>w W. wire_heap s w = Some W \<longrightarrow> Some w \<in> set (d_wires D) \<longrightarrow>
                  d_strength D \<noteq> d_strength D' \<longrightarrow>
                  (\<exists>W'. wire_heap s' w = Some W' \<and> w_attachments W' = w_attachments W \<and>
                        resolved W' = resolver_output s' W')"
      by auto
    from m have "unat (d_strength D') = 0" by (simp add: STRENGTH_HI_Z_def)
    then have "d_strength D' = STRENGTH_HI_Z" by (simp add: STRENGTH_HI_Z_def unat_eq_0)
    with run d1 wires show ?thesis unfolding z by blast
  qed
  have e: "valid_drives s drives \<longrightarrow>
          (\<exists>s'. qemu_wire_multi_drive leaf_listener drives s = returns s' \<and>
            (\<forall>x X wd. driver_heap s x = Some X \<longrightarrow> last_drive drives x = Some wd \<longrightarrow>
               (\<exists>X'. driver_heap s' x = Some X' \<and> d_strength X' = wd_strength wd \<and>
                  (\<forall>k :: 32 word. wd_strength wd = ucast k \<longrightarrow>
                     unat (d_strength X') = unat k mod 8))) \<and>
            (\<forall>w W x X X'. wire_heap s w = Some W \<longrightarrow> driver_heap s x = Some X \<longrightarrow>
               Some w \<in> set (d_wires X) \<longrightarrow> driver_heap s' x = Some X' \<longrightarrow>
               d_strength X \<noteq> d_strength X' \<longrightarrow>
               (\<exists>W'. wire_heap s' w = Some W' \<and> w_attachments W' = w_attachments W \<and>
                     resolved W' = resolver_output s' W')))"
  proof
    assume vd: "valid_drives s drives"
    from batch_drive_stored[OF assms(1,2) vd] obtain s' where
      run: "qemu_wire_multi_drive leaf_listener drives s = returns s'"
      and drivers: "\<forall>d D. driver_heap s d = Some D \<longrightarrow>
              (\<exists>D'. driver_heap s' d = Some D' \<and>
                 signal_of D' = (case last_drive drives d of None \<Rightarrow> signal_of D
                                 | Some wd \<Rightarrow> drive_signal wd))"
      and wires: "\<forall>w W d D D'. wire_heap s w = Some W \<longrightarrow> driver_heap s d = Some D \<longrightarrow>
              Some w \<in> set (d_wires D) \<longrightarrow> driver_heap s' d = Some D' \<longrightarrow>
              signal_of D' \<noteq> signal_of D \<longrightarrow>
              (\<exists>W'. wire_heap s' w = Some W' \<and> w_attachments W' = w_attachments W \<and>
                    resolved W' = resolver_output s' W')"
      by blast
    have p1: "\<exists>X'. driver_heap s' x = Some X' \<and> d_strength X' = wd_strength wd \<and>
                  (\<forall>k :: 32 word. wd_strength wd = ucast k \<longrightarrow> unat (d_strength X') = unat k mod 8)"
      if X: "driver_heap s x = Some X" and l: "last_drive drives x = Some wd" for x X wd
    proof -
      from drivers X l obtain X' where X': "driver_heap s' x = Some X'"
        and sg: "signal_of X' = drive_signal wd"
        by fastforce
      from sg have ds: "d_strength X' = wd_strength wd"
        by (simp add: signal_of_def drive_signal_def)
      have "unat (d_strength X') = unat k mod 8" if "wd_strength wd = ucast k" for k :: "32 word"
        unfolding ds that by (rule unat_ucast_three_bits)
      with X' ds show ?thesis by blast
    qed
    have p2: "\<exists>W'. wire_heap s' w = Some W' \<and> w_attachments W' = w_attachments W \<and>
                     resolved W' = resolver_output s' W'"
      if "wire_heap s w = Some W" "driver_heap s x = Some X" "Some w \<in> set (d_wires X)"
        "driver_heap s' x = Some X'" "d_strength X \<noteq> d_strength X'" for w W x X X'
    proof -
      from that(5) have "signal_of X' \<noteq> signal_of X" by (auto simp: signal_of_def)
      with wires that(1-4) show ?thesis by blast
    qed
    from run p1 p2 show "\<exists>s'. qemu_wire_multi_drive leaf_listener drives s = returns s' \<and>
            (\<forall>x X wd. driver_heap s x = Some X \<longrightarrow> last_drive drives x = Some wd \<longrightarrow>
               (\<exists>X'. driver_heap s' x = Some X' \<and> d_strength X' = wd_strength wd \<and>
                  (\<forall>k :: 32 word. wd_strength wd = ucast k \<longrightarrow>
                     unat (d_strength X') = unat k mod 8))) \<and>
            (\<forall>w W x X X'. wire_heap s w = Some W \<longrightarrow> driver_heap s x = Some X \<longrightarrow>
               Some w \<in> set (d_wires X) \<longrightarrow> driver_heap s' x = Some X' \<longrightarrow>
               d_strength X \<noteq> d_strength X' \<longrightarrow>
               (\<exists>W'. wire_heap s' w = Some W' \<and> w_attachments W' = w_attachments W \<and>
                     resolved W' = resolver_output s' W'))"
      by blast
  qed
  from a b c e show ?thesis by (intro conjI)
qed


theorem drive_strength_three_bits_witness:
  "(\<exists>s' D' W'. qemu_wire_drive leaf_listener (Some 1) 8 True pull_state = returns s' \<and>
      map_option d_strength (driver_heap pull_state 1) = Some STRENGTH_PULL \<and>
      driver_heap s' 1 = Some D' \<and> d_strength D' = STRENGTH_HI_Z \<and>
      wire_heap s' 0 = Some W' \<and> w_strength W' = STRENGTH_HI_Z) \<and>
   (\<exists>s' D'. qemu_wire_drive_z leaf_listener (Some 1) pull_state = returns s' \<and>
      driver_heap s' 1 = Some D' \<and> d_strength D' = STRENGTH_HI_Z) \<and>
   (\<exists>s' D'. qemu_wire_multi_drive leaf_listener pull_batch pull_state = returns s' \<and>
      driver_heap s' 1 = Some D' \<and> d_strength D' = STRENGTH_STRONG)"
proof -
  let ?D = "mk_driver [Some 0] STRENGTH_PULL VALUE_MODE_D 1"
  let ?W = "(mk_wire [Some 1] [\<lparr>l_handler = 9, l_opaque = 0\<rparr>])\<lparr>w_value := 1, w_strength := STRENGTH_PULL\<rparr>"
  let ?wd = "\<lparr>wd_driver = Some 1, wd_value = 1, wd_strength = STRENGTH_STRONG,
              wd_value_mode = VALUE_MODE_D\<rparr>"
  have D: "driver_heap pull_state 1 = Some ?D" by (simp add: pull_state_def)
  have W: "wire_heap pull_state 0 = Some ?W" by (simp add: pull_state_def)
  have fd: "Some 0 \<in> set (d_wires ?D)" by (simp add: mk_driver_def)
  have sD: "d_strength ?D = STRENGTH_PULL" by (simp add: mk_driver_def)
  have att: "w_attachments ?W = [Some 1]" by (simp add: mk_wire_def)
  have ld: "last_drive pull_batch 1 = Some ?wd" by (simp add: pull_batch_def)
  note inst = drive_strength_three_bits[OF well_formed_pull settled_pull D,
      where strength = 8 and dval = True and aval = 0 and drives = pull_batch]
  from inst obtain s' D' where
    run: "qemu_wire_drive leaf_listener (Some 1) 8 True pull_state = returns s'"
    and d1: "driver_heap s' 1 = Some D'" and z: "d_strength D' = STRENGTH_HI_Z"
    and wires: "\<forall>w W. wire_heap pull_state w = Some W \<longrightarrow> Some w \<in> set (d_wires ?D) \<longrightarrow>
                  d_strength ?D \<noteq> d_strength D' \<longrightarrow>
                  (\<exists>W'. wire_heap s' w = Some W' \<and> w_attachments W' = w_attachments W \<and>
                        resolved W' = resolver_output s' W')"
    by blast
  have ne: "d_strength ?D \<noteq> d_strength D'"
    unfolding sD z by (simp add: STRENGTH_PULL_def STRENGTH_HI_Z_def)
  from wires W fd ne obtain W' where W': "wire_heap s' 0 = Some W'"
    and a: "w_attachments W' = w_attachments ?W" and r: "resolved W' = resolver_output s' W'"
    by blast
  have "resolver_output s' W' = ((STRENGTH_HI_Z, VALUE_MODE_D, 0), False)"
    unfolding resolver_output_def a att using d1 z
    by (simp add: resolver_spec_def resolver_step_spec_def signal_of_def)
  with r have ws: "w_strength W' = STRENGTH_HI_Z"
    by (simp add: resolved_def)
  have p: "map_option d_strength (driver_heap pull_state 1) = Some STRENGTH_PULL"
    unfolding D using sD by simp
  from run p d1 z W' ws have first:
    "\<exists>s' D' W'. qemu_wire_drive leaf_listener (Some 1) 8 True pull_state = returns s' \<and>
      map_option d_strength (driver_heap pull_state 1) = Some STRENGTH_PULL \<and>
      driver_heap s' 1 = Some D' \<and> d_strength D' = STRENGTH_HI_Z \<and>
      wire_heap s' 0 = Some W' \<and> w_strength W' = STRENGTH_HI_Z"
    by blast
  from inst have second:
    "\<exists>s' D'. qemu_wire_drive_z leaf_listener (Some 1) pull_state = returns s' \<and>
      driver_heap s' 1 = Some D' \<and> d_strength D' = STRENGTH_HI_Z"
    by blast
  from inst valid_pull_batch obtain s3 where
    run3: "qemu_wire_multi_drive leaf_listener pull_batch pull_state = returns s3"
    and drv: "\<forall>x X wd. driver_heap pull_state x = Some X \<longrightarrow> last_drive pull_batch x = Some wd \<longrightarrow>
               (\<exists>X'. driver_heap s3 x = Some X' \<and> d_strength X' = wd_strength wd \<and>
                  (\<forall>k :: 32 word. wd_strength wd = ucast k \<longrightarrow>
                     unat (d_strength X') = unat k mod 8))"
    by blast
  from drv D ld obtain X' where "driver_heap s3 1 = Some X'" "d_strength X' = wd_strength ?wd"
    by blast
  with run3 have third:
    "\<exists>s' D'. qemu_wire_multi_drive leaf_listener pull_batch pull_state = returns s' \<and>
      driver_heap s' 1 = Some D' \<and> d_strength D' = STRENGTH_STRONG"
    by simp
  from first second third show ?thesis by (intro conjI)
qed

subsection \<open>The transient flags without re-entry\<close>

lemma live_wire_iff: "live_wire s wire \<longleftrightarrow> (\<exists>w W. wire = Some w \<and> wire_heap s w = Some W)"
  by (cases wire) (auto simp: live_wire_def)

lemma live_driver_iff: "live_driver s driver \<longleftrightarrow> (\<exists>d D. driver = Some d \<and> driver_heap s d = Some D)"
  by (cases driver) (auto simp: live_driver_def)

lemma well_formed_put_wire_gen:
  assumes "well_formed s" and "wire_heap s w = Some W"
    and "\<forall>q\<in>set (w_attachments W'). \<exists>d. q = Some d \<and> d \<in> dom (driver_heap s)"
  shows "well_formed (put_wire w W' s)"
  using assms unfolding well_formed_def
  by (auto simp: dom_def split: if_splits) (metis option.distinct(1))+

lemma well_formed_put_driver_gen:
  assumes "well_formed s" and "driver_heap s d = Some D"
    and "\<forall>p\<in>set (d_wires D'). \<exists>w. p = Some w \<and> w \<in> dom (wire_heap s)"
  shows "well_formed (put_driver d D' s)"
  using assms unfolding well_formed_def
  by (auto simp: dom_def split: if_splits) (metis option.distinct(1))+

lemma settled_put_wire:
  assumes "settled s" and "\<not> w_changed W'" and "\<not> w_driver_changed W'" and "\<not> w_in_callback W'"
  shows "settled (put_wire w W' s)"
  using assms unfolding settled_def by (auto split: if_splits)

lemma settled_put_driver:
  assumes "settled s" and "\<not> d_changed D'"
  shows "settled (put_driver d D' s)"
  using assms unfolding settled_def by (auto split: if_splits)

lemma settled_log [simp]:
  "settled (log_event e s) = settled s"
  "settled (log_events es s) = settled s"
  by (simp_all add: settled_def)

lemma settled_wire:
  "settled s \<Longrightarrow> wire_heap s w = Some W \<Longrightarrow>
     \<not> w_changed W \<and> \<not> w_driver_changed W \<and> \<not> w_in_callback W"
  unfolding settled_def by blast

lemma settled_driver: "settled s \<Longrightarrow> driver_heap s d = Some D \<Longrightarrow> \<not> d_changed D"
  unfolding settled_def by blast

lemma well_formed_wire:
  "well_formed s \<Longrightarrow> wire_heap s w = Some W \<Longrightarrow>
     \<forall>q\<in>set (w_attachments W). \<exists>d. q = Some d \<and> d \<in> dom (driver_heap s)"
  unfolding well_formed_def by blast

lemma well_formed_driver:
  "well_formed s \<Longrightarrow> driver_heap s d = Some D \<Longrightarrow>
     \<forall>p\<in>set (d_wires D). \<exists>w. p = Some w \<and> w \<in> dom (wire_heap s)"
  unfolding well_formed_def by blast

lemma set_del_last_match: "set (del_last_match P v) \<subseteq> set v"
proof (cases "find_last P v (length v)")
  case None
  then show ?thesis by (simp add: del_last_match_def)
next
  case (Some i)
  have "set (take i v @ drop (Suc i) v) \<subseteq> set v"
    using set_take_subset[of i v] set_drop_subset[of "Suc i" v] by auto
  then show ?thesis using Some by (simp add: del_last_match_def vector_del_def)
qed

lemma attach_settled:
  assumes wf: "well_formed s" and st: "settled s"
    and W: "wire_heap s w = Some W" and D: "driver_heap s d = Some D"
  shows "\<exists>s'. qemu_wire_attach (Some w) (Some d) s = returns s' \<and> settled s' \<and> well_formed s'"
proof -
  let ?W1 = "W\<lparr>w_attachments := w_attachments W @ [Some d]\<rparr>"
  let ?s1 = "put_wire w ?W1 s"
  let ?D1 = "D\<lparr>d_wires := d_wires D @ [Some w],
                d_wires_slack := vector_append_slack (d_wires D) (d_wires_slack D)\<rparr>"
  let ?s' = "put_driver d ?D1 ?s1"
  have D1: "driver_heap ?s1 d = Some D" using D by simp
  have run: "qemu_wire_attach (Some w) (Some d) s = returns ?s'"
    using W D1 by (simp add: qemu_wire_attach_def Let_def)
  have st1: "settled ?s1"
    using settled_wire[OF st W] by (intro settled_put_wire[OF st]) simp_all
  have st': "settled ?s'"
    using settled_driver[OF st D] by (intro settled_put_driver[OF st1]) simp
  have wf1: "well_formed ?s1"
    using well_formed_wire[OF wf W] D
    by (intro well_formed_put_wire_gen[OF wf W]) (auto simp: dom_def)
  have dom1: "dom (wire_heap ?s1) = dom (wire_heap s)"
    using W by (auto simp: dom_def)
  have "\<forall>p\<in>set (d_wires ?D1). \<exists>x. p = Some x \<and> x \<in> dom (wire_heap ?s1)"
    unfolding dom1 using well_formed_driver[OF wf D] W by (auto simp: dom_def)
  then have wf': "well_formed ?s'"
    by (rule well_formed_put_driver_gen[OF wf1 D1])
  from run st' wf' show ?thesis by blast
qed

lemma detach_settled:
  assumes wf: "well_formed s" and st: "settled s"
    and W: "wire_heap s w = Some W" and D: "driver_heap s d = Some D"
  shows "\<exists>s'. qemu_wire_detach leaf_listener (Some w) (Some d) s = returns s' \<and>
           settled s' \<and> well_formed s'"
proof -
  let ?D1 = "D\<lparr>d_wires := del_last_match (\<lambda>p. p = Some w) (d_wires D),
                d_wires_slack :=
                  del_last_match_slack (\<lambda>p. p = Some w) (d_wires D) (d_wires_slack D)\<rparr>"
  let ?s1 = "put_driver d ?D1 s"
  let ?W2 = "W\<lparr>w_attachments := del_last_match (\<lambda>p. p = Some d) (w_attachments W)\<rparr>"
  let ?s2 = "put_wire w ?W2 ?s1"
  let ?W3 = "resolve (driver_heap ?s2) ?W2"
  let ?s3 = "put_wire w ?W3 (log_event (Ev_wire_update w) ?s2)"
  let ?s4 = "if w_changed ?W3
             then put_wire w (?W3\<lparr>w_changed := False, w_in_callback := False\<rparr>)
                    (log_events (sweep_events w ?W3) ?s3)
             else ?s3"
  have W1: "wire_heap ?s1 w = Some W" using W by simp
  have W2: "wire_heap ?s2 w = Some ?W2" by simp
  have W3: "wire_heap ?s3 w = Some ?W3" by simp
  have flags: "\<not> w_changed W" "\<not> w_driver_changed W" "\<not> w_in_callback W"
    using settled_wire[OF st W] by simp_all
  have st1: "settled ?s1"
    using settled_driver[OF st D] by (intro settled_put_driver[OF st]) simp
  have wf1: "well_formed ?s1"
  proof (rule well_formed_put_driver_gen[OF wf D])
    show "\<forall>p\<in>set (d_wires ?D1). \<exists>w. p = Some w \<and> w \<in> dom (wire_heap s)"
      using well_formed_driver[OF wf D] set_del_last_match[of "\<lambda>p. p = Some w" "d_wires D"]
      by auto
  qed
  have v2: "\<forall>q\<in>set (w_attachments ?W2). \<exists>x. q = Some x \<and> x \<in> dom (driver_heap ?s1)"
    using well_formed_wire[OF wf1 W1] set_del_last_match[of "\<lambda>p. p = Some d" "w_attachments W"]
    by auto
  have wf2: "well_formed ?s2"
    by (rule well_formed_put_wire_gen[OF wf1 W1 v2])
  have v2': "\<forall>q\<in>set (w_attachments ?W2). \<exists>x. q = Some x \<and> x \<in> dom (driver_heap ?s2)"
    using v2 by simp
  have upd: "wire_update (Some w) ?s2 = returns ?s3"
    by (rule wire_update_valid[OF W2 v2'])
  have ntf: "wire_notify_if_changed leaf_listener (Some w) ?s3 = returns ?s4"
    by (rule wire_notify_leaf[OF W3])
  have run: "qemu_wire_detach leaf_listener (Some w) (Some d) s = returns ?s4"
    unfolding qemu_wire_detach_def using D W1 upd ntf by (simp add: Let_def)
  have wf2l: "well_formed (log_event (Ev_wire_update w) ?s2)"
    using wf2 by simp
  have W2l: "wire_heap (log_event (Ev_wire_update w) ?s2) w = Some ?W2"
    by simp
  have wf3: "well_formed ?s3"
    by (rule well_formed_put_wire[OF wf2l W2l]) simp
  have wf3l: "well_formed (log_events (sweep_events w ?W3) ?s3)"
    using wf3 by simp
  have W3l: "wire_heap (log_events (sweep_events w ?W3) ?s3) w = Some ?W3"
    by simp
  have "well_formed (put_wire w (?W3\<lparr>w_changed := False, w_in_callback := False\<rparr>)
                       (log_events (sweep_events w ?W3) ?s3))"
    by (rule well_formed_put_wire[OF wf3l W3l]) simp
  with wf3 have wf4: "well_formed ?s4"
    by (simp only: if_split) blast
  have st4: "settled ?s4"
  proof (cases "w_changed ?W3")
    case True
    have "settled (put_wire w (?W3\<lparr>w_changed := False, w_in_callback := False\<rparr>) ?s1)"
      using flags by (intro settled_put_wire[OF st1]) simp_all
    then show ?thesis using True by (simp add: settled_def)
  next
    case False
    have "settled (put_wire w ?W3 ?s1)"
      using flags False by (intro settled_put_wire[OF st1]) simp_all
    then show ?thesis using False by (simp add: settled_def)
  qed
  from run st4 wf4 show ?thesis by blast
qed

lemma listen_settled:
  assumes wf: "well_formed s" and st: "settled s" and W: "wire_heap s w = Some W"
  shows "\<exists>s'. qemu_wire_listen (Some w) handler opaque s = returns s' \<and>
           settled s' \<and> well_formed s'"
proof -
  let ?W' = "W\<lparr>w_listeners := w_listeners W @ [\<lparr>l_handler = handler, l_opaque = opaque\<rparr>],
                w_listeners_slack := vector_append_slack (w_listeners W) (w_listeners_slack W)\<rparr>"
  have run: "qemu_wire_listen (Some w) handler opaque s = returns (put_wire w ?W' s)"
    using W by (simp add: qemu_wire_listen_def)
  have st': "settled (put_wire w ?W' s)"
    using settled_wire[OF st W] by (intro settled_put_wire[OF st]) simp_all
  have wf': "well_formed (put_wire w ?W' s)"
    by (rule well_formed_put_wire[OF wf W]) simp
  from run st' wf' show ?thesis by blast
qed

lemma unlisten_settled:
  assumes wf: "well_formed s" and st: "settled s" and W: "wire_heap s w = Some W"
  shows "\<exists>s'. qemu_wire_unlisten (Some w) handler opaque s = returns s' \<and>
           settled s' \<and> well_formed s'"
proof -
  let ?W' = "W\<lparr>w_listeners :=
                 del_last_match (\<lambda>lis. l_handler lis = handler \<and> l_opaque lis = opaque)
                   (w_listeners W),
                w_listeners_slack :=
                 del_last_match_slack (\<lambda>lis. l_handler lis = handler \<and> l_opaque lis = opaque)
                   (w_listeners W) (w_listeners_slack W)\<rparr>"
  have run: "qemu_wire_unlisten (Some w) handler opaque s = returns (put_wire w ?W' s)"
    using W by (simp add: qemu_wire_unlisten_def)
  have st': "settled (put_wire w ?W' s)"
    using settled_wire[OF st W] by (intro settled_put_wire[OF st]) simp_all
  have wf': "well_formed (put_wire w ?W' s)"
    by (rule well_formed_put_wire[OF wf W]) simp
  from run st' wf' show ?thesis by blast
qed

lemma multi_drive_settled:
  assumes "well_formed s" and "settled s" and "valid_drives s drives"
  shows "\<exists>s'. qemu_wire_multi_drive leaf_listener drives s = returns s' \<and>
           settled s' \<and> well_formed s'"
  using multi_drive_events[OF assms] by blast

lemma valid_single_drive:
  "driver = None \<or> live_driver s driver \<Longrightarrow>
   valid_drives s [\<lparr>wd_driver = driver, wd_value = v, wd_strength = k, wd_value_mode = m\<rparr>]"
  by (auto simp: valid_drives_def live_driver_iff)

text \<open>
  With listeners that do not call back into the library the invariant holds: attach,
  detach, the drive operations, listen, unlisten and the sense operations, run on a
  well-formed state whose transient flags are all clear and with arguments they accept,
  return, and in the state they return the flags \<open>changed\<close>, \<open>driver_changed\<close> and
  \<open>in_callback\<close> of every wire and the flag \<open>changed\<close> of every driver are clear
  again; the state is well-formed again, so the property carries over to every sequence
  of such operations.
\<close>

lemma flags_clear_on_return:
  assumes wf: "well_formed s" and st: "settled s" and v: "valid_op s op"
  shows "\<exists>s'. run_op leaf_listener op s = returns s' \<and> settled s' \<and> well_formed s'"
proof (cases op)
  case (Op_attach wire driver)
  show ?thesis
  proof (cases wire)
    case None
    with Op_attach wf st show ?thesis by (simp add: qemu_wire_attach_def)
  next
    case (Some w)
    with v Op_attach obtain W d D where "wire_heap s w = Some W" "driver = Some d"
      "driver_heap s d = Some D"
      by (auto simp: live_wire_iff live_driver_iff)
    with attach_settled[OF wf st, of w W d D] Op_attach Some show ?thesis by simp
  qed
next
  case (Op_detach wire driver)
  show ?thesis
  proof (cases wire)
    case None
    with Op_detach wf st show ?thesis by (simp add: qemu_wire_detach_def)
  next
    case (Some w)
    with v Op_detach obtain W d D where "wire_heap s w = Some W" "driver = Some d"
      "driver_heap s d = Some D"
      by (auto simp: live_wire_iff live_driver_iff)
    with detach_settled[OF wf st, of w W d D] Op_detach Some show ?thesis by simp
  qed
next
  case (Op_drive driver strength dval)
  with v have "driver = None \<or> live_driver s driver" by simp
  from multi_drive_settled[OF wf st valid_single_drive[OF this]] Op_drive
  show ?thesis by (simp add: qemu_wire_drive_def)
next
  case (Op_drive_a driver strength aval)
  with v have "driver = None \<or> live_driver s driver" by simp
  from multi_drive_settled[OF wf st valid_single_drive[OF this]] Op_drive_a
  show ?thesis by (simp add: qemu_wire_drive_a_def)
next
  case (Op_drive_z driver)
  with v have "driver = None \<or> live_driver s driver" by simp
  from multi_drive_settled[OF wf st valid_single_drive[OF this]] Op_drive_z
  show ?thesis by (simp add: qemu_wire_drive_z_def qemu_wire_drive_def)
next
  case (Op_multi_drive drives)
  with v have "valid_drives s drives" by simp
  from multi_drive_settled[OF wf st this] Op_multi_drive show ?thesis by simp
next
  case (Op_listen wire handler opaque)
  show ?thesis
  proof (cases wire)
    case None
    with Op_listen wf st show ?thesis by (simp add: qemu_wire_listen_def)
  next
    case (Some w)
    with v Op_listen obtain W where "wire_heap s w = Some W"
      by (auto simp: live_wire_iff)
    from listen_settled[OF wf st this] Op_listen Some show ?thesis by simp
  qed
next
  case (Op_unlisten wire handler opaque)
  show ?thesis
  proof (cases wire)
    case None
    with Op_unlisten wf st show ?thesis by (simp add: qemu_wire_unlisten_def)
  next
    case (Some w)
    with v Op_unlisten obtain W where "wire_heap s w = Some W"
      by (auto simp: live_wire_iff)
    from unlisten_settled[OF wf st this] Op_unlisten Some
    show ?thesis by simp
  qed
next
  case (Op_sense wire)
  with v wf st show ?thesis
    by (cases wire) (auto simp: qemu_wire_sense_def live_wire_iff)
next
  case (Op_sense_a wire)
  with v wf st show ?thesis
    by (cases wire) (auto simp: qemu_wire_sense_a_def live_wire_iff)
next
  case (Op_sense_strength wire)
  with v wf st show ?thesis
    by (cases wire) (auto simp: qemu_wire_sense_strength_def live_wire_iff)
next
  case (Op_sense_conflicted wire)
  with v wf st show ?thesis
    by (cases wire) (auto simp: qemu_wire_sense_conflicted_def live_wire_iff)
qed

subsection \<open>C5: NULL wires and NULL drivers\<close>

text \<open>
  Claim C5, as stated, fails.  With a wire that is not \<open>NULL\<close>, \<open>qemu_wire_attach\<close>
  appends to \<open>driver->wires\<close> and \<open>qemu_wire_detach\<close> reads \<open>driver->wires\<close>: a
  \<open>NULL\<close> driver is dereferenced, whatever the listeners do.
\<close>

theorem null_driver_counterexample:
  "wire_heap null_state 0 = Some (mk_wire [] []) \<and>
   qemu_wire_attach (Some 0) None null_state = faults Null_pointer \<and>
   qemu_wire_detach leaf_listener (Some 0) None null_state = faults Null_pointer"
  by (simp add: null_state_def qemu_wire_attach_def qemu_wire_detach_def wire_at_def
      driver_at_def put_wire_def)

lemma drive_apply_skips_null:
  "drive_apply (filter (\<lambda>wd. wd_driver wd \<noteq> None) wds) = drive_apply wds"
proof (induction wds)
  case Nil
  show ?case by simp
next
  case (Cons wd wds)
  show ?case
  proof (cases "wd_driver wd")
    case None
    then have f: "filter (\<lambda>wd. wd_driver wd \<noteq> None) (wd # wds) =
        filter (\<lambda>wd. wd_driver wd \<noteq> None) wds" by simp
    show ?thesis unfolding f Cons.IH using None by (intro ext) simp
  next
    case (Some d)
    then have f: "filter (\<lambda>wd. wd_driver wd \<noteq> None) (wd # wds) =
        wd # filter (\<lambda>wd. wd_driver wd \<noteq> None) wds" by simp
    show ?thesis unfolding f drive_apply.simps Cons.IH ..
  qed
qed

lemma drive_update_skips_null:
  "drive_update (filter (\<lambda>wd. wd_driver wd \<noteq> None) wds) = drive_update wds"
proof (induction wds)
  case Nil
  show ?case by simp
next
  case (Cons wd wds)
  show ?case
  proof (cases "wd_driver wd")
    case None
    then have f: "filter (\<lambda>wd. wd_driver wd \<noteq> None) (wd # wds) =
        filter (\<lambda>wd. wd_driver wd \<noteq> None) wds" by simp
    show ?thesis unfolding f Cons.IH using None by (intro ext) simp
  next
    case (Some d)
    then have f: "filter (\<lambda>wd. wd_driver wd \<noteq> None) (wd # wds) =
        wd # filter (\<lambda>wd. wd_driver wd \<noteq> None) wds" by simp
    show ?thesis unfolding f drive_update.simps Cons.IH ..
  qed
qed

lemma drive_notify_skips_null:
  "drive_notify cb (filter (\<lambda>wd. wd_driver wd \<noteq> None) wds) = drive_notify cb wds"
proof (induction wds)
  case Nil
  show ?case by simp
next
  case (Cons wd wds)
  show ?case
  proof (cases "wd_driver wd")
    case None
    then have f: "filter (\<lambda>wd. wd_driver wd \<noteq> None) (wd # wds) =
        filter (\<lambda>wd. wd_driver wd \<noteq> None) wds" by simp
    show ?thesis unfolding f Cons.IH using None by (intro ext) simp
  next
    case (Some d)
    then have f: "filter (\<lambda>wd. wd_driver wd \<noteq> None) (wd # wds) =
        wd # filter (\<lambda>wd. wd_driver wd \<noteq> None) wds" by simp
    show ?thesis unfolding f drive_notify.simps Cons.IH ..
  qed
qed

lemma multi_drive_skips_null:
  "qemu_wire_multi_drive cb (filter (\<lambda>wd. wd_driver wd \<noteq> None) drives) s =
   qemu_wire_multi_drive cb drives s"
  unfolding qemu_wire_multi_drive_def drive_apply_skips_null drive_update_skips_null
    drive_notify_skips_null ..

lemma multi_drive_all_null:
  "qemu_wire_multi_drive cb (map (\<lambda>wd. wd\<lparr>wd_driver := None\<rparr>) drives) s = returns s"
proof -
  have "filter (\<lambda>wd. wd_driver wd \<noteq> None) (map (\<lambda>wd. wd\<lparr>wd_driver := None\<rparr>) drives) = []"
    by (induction drives) simp_all
  then have "qemu_wire_multi_drive cb
      (filter (\<lambda>wd. wd_driver wd \<noteq> None) (map (\<lambda>wd. wd\<lparr>wd_driver := None\<rparr>) drives)) s = returns s"
    by (simp only: qemu_wire_multi_drive_def drive_apply.simps drive_update.simps
        drive_notify.simps bind_r_simps)
  then show ?thesis unfolding multi_drive_skips_null .
qed


lemma sense_null_or_live:
  assumes "wire = None \<or> live_wire s wire"
  shows "\<exists>v st. qemu_wire_sense wire s = returns (v, st) \<and> (wire = None \<longrightarrow> \<not> v \<and> st = 0)"
  using assms
  by (cases wire) (auto simp: qemu_wire_sense_def live_wire_iff STRENGTH_HI_Z_def)

lemma multi_sense_walk_null:
  assumes len: "n \<le> length wires"
    and ok: "\<forall>j<n. wires ! j = None \<or> live_wire s (wires ! j)"
  shows "i \<le> n \<Longrightarrow>
    \<exists>r k. multi_sense_walk s wires n i (2 ^ i) result weakest = returns (r, k) \<and>
      (\<forall>j. bit r j \<longrightarrow> bit result j \<or> (i \<le> j \<and> j < n \<and> wires ! j \<noteq> None)) \<and>
      ((0 < i \<and> weakest = 0) \<or> (\<exists>j. i \<le> j \<and> j < n \<and> wires ! j = None) \<longrightarrow> k = 0)"
proof (induction "n - i" arbitrary: i result weakest)
  case 0
  then have "i = n" by simp
  then show ?case by auto
next
  case (Suc m)
  then have i: "i < n" by simp
  from ok i have "wires ! i = None \<or> live_wire s (wires ! i)" by simp
  from sense_null_or_live[OF this] obtain v st where
    vs: "qemu_wire_sense (wires ! i) s = returns (v, st) \<and> (wires ! i = None \<longrightarrow> \<not> v \<and> st = 0)"
    by (elim exE)
  from vs have sense: "qemu_wire_sense (wires ! i) s = returns (v, st)" ..
  from vs have null: "wires ! i = None \<longrightarrow> \<not> v \<and> st = 0" ..
  let ?result = "if v then or result (2 ^ i) else result"
  let ?weakest = "if i = 0 \<or> st < weakest then st else weakest"
  have sh: "push_bit 1 (2 ^ i :: 32 word) = 2 ^ Suc i"
    by (simp add: push_bit_eq_mult)
  have il: "i < length wires" using i len by simp
  have step: "multi_sense_walk s wires n i (2 ^ i) result weakest =
      multi_sense_walk s wires n (Suc i) (2 ^ Suc i) ?result ?weakest"
    by (subst multi_sense_walk.simps)
      (simp only: i il if_True VECTOR_AT_def bind_r_simps sense prod.case sh
        Suc_eq_plus1[symmetric])
  have m: "m = n - Suc i" using Suc.hyps(2) by simp
  from i have "Suc i \<le> n" by simp
  from Suc.hyps(1)[OF m this, of ?result ?weakest] obtain r k where
    rk: "multi_sense_walk s wires n (Suc i) (2 ^ Suc i) ?result ?weakest = returns (r, k) \<and>
      (\<forall>j. bit r j \<longrightarrow> bit ?result j \<or> (Suc i \<le> j \<and> j < n \<and> wires ! j \<noteq> None)) \<and>
      ((0 < Suc i \<and> ?weakest = 0) \<or> (\<exists>j. Suc i \<le> j \<and> j < n \<and> wires ! j = None) \<longrightarrow> k = 0)"
    by (elim exE)
  from rk have run: "multi_sense_walk s wires n (Suc i) (2 ^ Suc i) ?result ?weakest = returns (r, k)"
    by (rule conjunct1)
  from rk have bits: "\<forall>j. bit r j \<longrightarrow> bit ?result j \<or> (Suc i \<le> j \<and> j < n \<and> wires ! j \<noteq> None)"
    by (rule conjunct1[OF conjunct2])
  from rk have weak: "(0 < Suc i \<and> ?weakest = 0) \<or> (\<exists>j. Suc i \<le> j \<and> j < n \<and> wires ! j = None) \<longrightarrow> k = 0"
    by (rule conjunct2[OF conjunct2])
  have b1: "bit ?result j \<longrightarrow> bit result j \<or> (j = i \<and> wires ! i \<noteq> None)" for j
    using null by (auto simp: bit_or_iff bit_exp_iff)
  have bits': "\<forall>j. bit r j \<longrightarrow> bit result j \<or> (i \<le> j \<and> j < n \<and> wires ! j \<noteq> None)"
  proof (intro allI impI)
    fix j assume "bit r j"
    with bits have "bit ?result j \<or> (Suc i \<le> j \<and> j < n \<and> wires ! j \<noteq> None)" by blast
    with b1[of j] i show "bit result j \<or> (i \<le> j \<and> j < n \<and> wires ! j \<noteq> None)" by auto
  qed
  have weak': "k = 0"
    if h: "(0 < i \<and> weakest = 0) \<or> (\<exists>j. i \<le> j \<and> j < n \<and> wires ! j = None)"
  proof -
    from h consider (a) "0 < i" "weakest = 0" | (b) "wires ! i = None"
      | (c) j where "Suc i \<le> j" "j < n" "wires ! j = None"
      by (metis Suc_leI le_neq_implies_less)
    then show ?thesis
    proof cases
      case a
      then have "?weakest = 0" by simp
      with weak show ?thesis by simp
    next
      case b
      with null have st: "st = 0" by simp
      have "?weakest = 0" unfolding st by (cases "weakest = 0") (simp_all add: word_neq_0_conv)
      with weak show ?thesis by simp
    next
      case c
      with weak show ?thesis by blast
    qed
  qed
  from run bits' weak' show ?case unfolding step by blast
qed

lemma multi_sense_null:
  assumes "(if n > 32 then 32 else n) \<le> length wires"
    and "\<forall>j < (if n > 32 then 32 else n). wires ! j = None \<or> live_wire s (wires ! j)"
  shows "\<exists>r k. qemu_wire_multi_sense wires n s = returns (r, k) \<and>
           (\<forall>j < (if n > 32 then 32 else n). wires ! j = None \<longrightarrow> \<not> bit r j) \<and>
           ((\<exists>j < (if n > 32 then 32 else n). wires ! j = None) \<longrightarrow> k = STRENGTH_HI_Z)"
proof -
  let ?n = "if n > 32 then 32 else n"
  have "0 \<le> ?n" by simp
  from multi_sense_walk_null[OF assms this, of 0 STRENGTH_HI_Z] obtain r k where
    rk: "multi_sense_walk s wires ?n 0 (2 ^ 0) 0 STRENGTH_HI_Z = returns (r, k) \<and>
      (\<forall>j. bit r j \<longrightarrow> bit (0 :: 32 word) j \<or> (0 \<le> j \<and> j < ?n \<and> wires ! j \<noteq> None)) \<and>
      ((0 < (0 :: nat) \<and> (STRENGTH_HI_Z :: 32 word) = 0) \<or> (\<exists>j. 0 \<le> j \<and> j < ?n \<and> wires ! j = None) \<longrightarrow> k = 0)"
    by (elim exE)
  from rk have run: "multi_sense_walk s wires ?n 0 1 0 STRENGTH_HI_Z = returns (r, k)"
    by simp
  from rk have bits: "\<forall>j. bit r j \<longrightarrow> (j < ?n \<and> wires ! j \<noteq> None)"
    by simp
  from rk have weak: "(\<exists>j. j < ?n \<and> wires ! j = None) \<longrightarrow> k = 0"
    by simp
  from run have "qemu_wire_multi_sense wires n s = returns (r, k)"
    by (simp add: qemu_wire_multi_sense_def)
  with bits weak show ?thesis unfolding STRENGTH_HI_Z_def by blast
qed


lemma live_wire_dom: "live_wire s wire \<longleftrightarrow> (\<exists>w. wire = Some w \<and> w \<in> dom (wire_heap s))"
  by (cases wire) (auto simp: live_wire_def)

lemma listen_null_or_live:
  assumes "wire = None \<or> live_wire s wire"
  shows "\<exists>s'. qemu_wire_listen wire handler opaque s = returns s' \<and>
           driver_heap s' = driver_heap s \<and> multi_heap s' = multi_heap s \<and>
           trace s' = trace s \<and> dom (wire_heap s') = dom (wire_heap s) \<and>
           (\<forall>w. wire \<noteq> Some w \<longrightarrow> wire_heap s' w = wire_heap s w)"
  using assms
  by (cases wire) (auto simp: qemu_wire_listen_def live_wire_iff)

lemma unlisten_null_or_live:
  assumes "wire = None \<or> live_wire s wire"
  shows "\<exists>s'. qemu_wire_unlisten wire handler opaque s = returns s' \<and>
           driver_heap s' = driver_heap s \<and> multi_heap s' = multi_heap s \<and>
           trace s' = trace s \<and> dom (wire_heap s') = dom (wire_heap s) \<and>
           (\<forall>w. wire \<noteq> Some w \<longrightarrow> wire_heap s' w = wire_heap s w)"
  using assms
  by (cases wire) (auto simp: qemu_wire_unlisten_def live_wire_iff)

lemma multi_listen_walk_null:
  assumes len: "n \<le> length wires"
  shows "i \<le> n \<Longrightarrow>
    \<forall>j. i \<le> j \<and> j < n \<longrightarrow> wires ! j = None \<or> live_wire s (wires ! j) \<Longrightarrow>
    multi_heap s ml \<noteq> None \<Longrightarrow>
    \<exists>s'. multi_listen_walk wires n ml i s = returns s' \<and>
      driver_heap s' = driver_heap s \<and> trace s' = trace s \<and>
      dom (wire_heap s') = dom (wire_heap s) \<and>
      (\<forall>w. (\<forall>j. i \<le> j \<and> j < n \<longrightarrow> wires ! j \<noteq> Some w) \<longrightarrow> wire_heap s' w = wire_heap s w)"
proof (induction "n - i" arbitrary: i s)
  case 0
  then have "i = n" by simp
  then show ?case by simp
next
  case (Suc m)
  then have i: "i < n" by simp
  have il: "i < length wires" using i len by simp
  from Suc.prems(3) obtain M where M: "multi_heap s ml = Some M" by blast
  let ?s1 = "s\<lparr>multi_heap := (multi_heap s)(ml \<mapsto> M\<lparr>ml_wires := ml_wires M @ [wires ! i]\<rparr>)\<rparr>"
  from Suc.prems(2) i have "wires ! i = None \<or> live_wire s (wires ! i)" by simp
  then have "wires ! i = None \<or> live_wire ?s1 (wires ! i)"
    by (cases "wires ! i") (simp_all add: live_wire_def)
  from listen_null_or_live[OF this, of multi_handler_ptr ml] obtain s2 where
    s2: "qemu_wire_listen (wires ! i) multi_handler_ptr ml ?s1 = returns s2 \<and>
           driver_heap s2 = driver_heap ?s1 \<and> multi_heap s2 = multi_heap ?s1 \<and>
           trace s2 = trace ?s1 \<and> dom (wire_heap s2) = dom (wire_heap ?s1) \<and>
           (\<forall>w. wires ! i \<noteq> Some w \<longrightarrow> wire_heap s2 w = wire_heap ?s1 w)"
    by (elim exE)
  then have run2: "qemu_wire_listen (wires ! i) multi_handler_ptr ml ?s1 = returns s2"
    and dh2: "driver_heap s2 = driver_heap s" and mh2: "multi_heap s2 = multi_heap ?s1"
    and tr2: "trace s2 = trace s" and dom2: "dom (wire_heap s2) = dom (wire_heap s)"
    and wh2: "\<forall>w. wires ! i \<noteq> Some w \<longrightarrow> wire_heap s2 w = wire_heap s w"
    by simp_all
  have step: "multi_listen_walk wires n ml i s = multi_listen_walk wires n ml (Suc i) s2"
    by (subst multi_listen_walk.simps)
      (simp only: i il if_True VECTOR_AT_def bind_r_simps M option.case run2
        Suc_eq_plus1[symmetric])
  have m: "m = n - Suc i" using Suc.hyps(2) by simp
  from i have le: "Suc i \<le> n" by simp
  have ok2: "\<forall>j. Suc i \<le> j \<and> j < n \<longrightarrow> wires ! j = None \<or> live_wire s2 (wires ! j)"
    using Suc.prems(2) dom2 by (simp add: live_wire_dom)
  have mh: "multi_heap s2 ml \<noteq> None" using mh2 by simp
  from Suc.hyps(1)[OF m le ok2 mh] obtain s' where
    s': "multi_listen_walk wires n ml (Suc i) s2 = returns s' \<and>
      driver_heap s' = driver_heap s2 \<and> trace s' = trace s2 \<and>
      dom (wire_heap s') = dom (wire_heap s2) \<and>
      (\<forall>w. (\<forall>j. Suc i \<le> j \<and> j < n \<longrightarrow> wires ! j \<noteq> Some w) \<longrightarrow> wire_heap s' w = wire_heap s2 w)"
    by (elim exE)
  have frame: "wire_heap s' w = wire_heap s w"
    if h: "\<forall>j. i \<le> j \<and> j < n \<longrightarrow> wires ! j \<noteq> Some w" for w
  proof -
    from h i have a: "wires ! i \<noteq> Some w" by simp
    from h have b: "\<forall>j. Suc i \<le> j \<and> j < n \<longrightarrow> wires ! j \<noteq> Some w" by simp
    from s' b have "wire_heap s' w = wire_heap s2 w" by blast
    with wh2 a show ?thesis by simp
  qed
  from s' dh2 tr2 dom2 frame show ?case unfolding step by auto
qed

lemma multi_unlisten_walk_null:
  assumes len: "n \<le> length wires"
  shows "i \<le> n \<Longrightarrow>
    \<forall>j. i \<le> j \<and> j < n \<longrightarrow> wires ! j = None \<or> live_wire s (wires ! j) \<Longrightarrow>
    \<exists>s'. multi_unlisten_walk wires n ml i s = returns s' \<and>
      driver_heap s' = driver_heap s \<and> trace s' = trace s \<and>
      multi_heap s' = multi_heap s \<and> dom (wire_heap s') = dom (wire_heap s) \<and>
      (\<forall>w. (\<forall>j. i \<le> j \<and> j < n \<longrightarrow> wires ! j \<noteq> Some w) \<longrightarrow> wire_heap s' w = wire_heap s w)"
proof (induction "n - i" arbitrary: i s)
  case 0
  then have "i = n" by simp
  then show ?case by simp
next
  case (Suc m)
  then have i: "i < n" by simp
  have il: "i < length wires" using i len by simp
  from Suc.prems(2) i have "wires ! i = None \<or> live_wire s (wires ! i)" by simp
  from unlisten_null_or_live[OF this, of multi_handler_ptr ml] obtain s2 where
    s2: "qemu_wire_unlisten (wires ! i) multi_handler_ptr ml s = returns s2 \<and>
           driver_heap s2 = driver_heap s \<and> multi_heap s2 = multi_heap s \<and>
           trace s2 = trace s \<and> dom (wire_heap s2) = dom (wire_heap s) \<and>
           (\<forall>w. wires ! i \<noteq> Some w \<longrightarrow> wire_heap s2 w = wire_heap s w)"
    by (elim exE)
  then have run2: "qemu_wire_unlisten (wires ! i) multi_handler_ptr ml s = returns s2"
    and dh2: "driver_heap s2 = driver_heap s" and mh2: "multi_heap s2 = multi_heap s"
    and tr2: "trace s2 = trace s" and dom2: "dom (wire_heap s2) = dom (wire_heap s)"
    and wh2: "\<forall>w. wires ! i \<noteq> Some w \<longrightarrow> wire_heap s2 w = wire_heap s w"
    by simp_all
  have step: "multi_unlisten_walk wires n ml i s = multi_unlisten_walk wires n ml (Suc i) s2"
    by (subst multi_unlisten_walk.simps)
      (simp only: i il if_True VECTOR_AT_def bind_r_simps run2 Suc_eq_plus1[symmetric])
  have m: "m = n - Suc i" using Suc.hyps(2) by simp
  from i have le: "Suc i \<le> n" by simp
  have ok2: "\<forall>j. Suc i \<le> j \<and> j < n \<longrightarrow> wires ! j = None \<or> live_wire s2 (wires ! j)"
    using Suc.prems(2) dom2 by (simp add: live_wire_dom)
  from Suc.hyps(1)[OF m le ok2] obtain s' where
    s': "multi_unlisten_walk wires n ml (Suc i) s2 = returns s' \<and>
      driver_heap s' = driver_heap s2 \<and> trace s' = trace s2 \<and>
      multi_heap s' = multi_heap s2 \<and> dom (wire_heap s') = dom (wire_heap s2) \<and>
      (\<forall>w. (\<forall>j. Suc i \<le> j \<and> j < n \<longrightarrow> wires ! j \<noteq> Some w) \<longrightarrow> wire_heap s' w = wire_heap s2 w)"
    by (elim exE)
  have frame: "wire_heap s' w = wire_heap s w"
    if h: "\<forall>j. i \<le> j \<and> j < n \<longrightarrow> wires ! j \<noteq> Some w" for w
  proof -
    from h i have a: "wires ! i \<noteq> Some w" by simp
    from h have b: "\<forall>j. Suc i \<le> j \<and> j < n \<longrightarrow> wires ! j \<noteq> Some w" by simp
    from s' b have "wire_heap s' w = wire_heap s2 w" by blast
    with wh2 a show ?thesis by simp
  qed
  from s' dh2 tr2 mh2 dom2 frame show ?case unfolding step by auto
qed


text \<open>
  Claim C5, amended.  Every public operation accepts a \<open>NULL\<close> wire, the drive operations
  and \<open>qemu_free_wiredriver\<close> accept a \<open>NULL\<close> driver, and \<open>qemu_wire_multi_unlisten\<close>
  accepts a \<open>NULL\<close> token: the operation returns and leaves the state as it was, a sense
  operation answers HI_Z, false or 0, and \<open>qemu_allocate_wiredriver\<close> returns the new
  driver as the allocator made it, attached to nothing.  A batch skips the descriptors whose driver is
  \<open>NULL\<close>.  An array of wires given to \<open>qemu_wire_multi_sense\<close>,
  \<open>qemu_wire_multi_listen\<close> or held by the token of \<open>qemu_wire_multi_unlisten\<close> may
  have \<open>NULL\<close> entries among live wires: the call returns, a \<open>NULL\<close> entry senses as bit
  0 and makes the weakest strength HI_Z, and no wire outside the array is touched.  (The
  header marks the wire, not the driver, of attach and detach as optional.)
\<close>

theorem null_wire_accepted:
  "qemu_free_wire cb unref None s = returns s \<and>
   qemu_allocate_wiredriver (Some d) obj None s = returns (Some d, put_driver d obj s) \<and>
   qemu_allocate_wiredriver None obj None s = returns (None, s) \<and>
   qemu_free_wiredriver cb unref None s = returns s \<and>
   qemu_wire_attach None driver s = returns s \<and>
   qemu_wire_detach cb None driver s = returns s \<and>
   qemu_set_wire_intrinsic None v s = returns s \<and>
   qemu_wire_drive cb None strength dval s = returns s \<and>
   qemu_wire_drive_a cb None strength aval s = returns s \<and>
   qemu_wire_drive_z cb None s = returns s \<and>
   qemu_wire_multi_drive cb (filter (\<lambda>wd. wd_driver wd \<noteq> None) drives) s =
     qemu_wire_multi_drive cb drives s \<and>
   qemu_wire_multi_drive cb (map (\<lambda>wd. wd\<lparr>wd_driver := None\<rparr>) drives) s = returns s \<and>
   qemu_wire_sense None s = returns (False, STRENGTH_HI_Z) \<and>
   qemu_wire_sense_a None s = returns (0, STRENGTH_HI_Z) \<and>
   qemu_wire_sense_strength None s = returns STRENGTH_HI_Z \<and>
   qemu_wire_sense_conflicted None s = returns False \<and>
   ((if n > 32 then 32 else n) \<le> length wires \<and>
    (\<forall>j < (if n > 32 then 32 else n). wires ! j = None \<or> live_wire s (wires ! j)) \<longrightarrow>
    (\<exists>r k. qemu_wire_multi_sense wires n s = returns (r, k) \<and>
       (\<forall>j < (if n > 32 then 32 else n). wires ! j = None \<longrightarrow> \<not> bit r j) \<and>
       ((\<exists>j < (if n > 32 then 32 else n). wires ! j = None) \<longrightarrow> k = STRENGTH_HI_Z))) \<and>
   qemu_wire_listen None handler opaque s = returns s \<and>
   qemu_wire_unlisten None handler opaque s = returns s \<and>
   qemu_wire_multi_listen new junk wires 0 handler opaque s = returns (None, s) \<and>
   (0 < n \<and> n \<le> length wires \<and> (\<forall>j<n. wires ! j = None \<or> live_wire s (wires ! j)) \<longrightarrow>
    (\<exists>s'. qemu_wire_multi_listen (Some ml) junk wires n handler opaque s = returns (Some ml, s') \<and>
       driver_heap s' = driver_heap s \<and> trace s' = trace s \<and>
       (\<forall>w. (\<forall>j<n. wires ! j \<noteq> Some w) \<longrightarrow> wire_heap s' w = wire_heap s w))) \<and>
   qemu_wire_multi_unlisten None s = returns s \<and>
   (multi_heap s ml = Some M \<and> ml_n M \<le> length (ml_wires M) \<and>
    (\<forall>j < ml_n M. ml_wires M ! j = None \<or> live_wire s (ml_wires M ! j)) \<longrightarrow>
    (\<exists>s'. qemu_wire_multi_unlisten (Some ml) s = returns s' \<and>
       driver_heap s' = driver_heap s \<and> trace s' = trace s \<and>
       (\<forall>w. (\<forall>j < ml_n M. ml_wires M ! j \<noteq> Some w) \<longrightarrow> wire_heap s' w = wire_heap s w)))"
proof -
  have free_wire: "qemu_free_wire cb unref None s = returns s"
    by (simp add: qemu_free_wire_def)
  have alloc: "qemu_allocate_wiredriver (Some d) obj None s = returns (Some d, put_driver d obj s)"
    by (simp add: qemu_allocate_wiredriver_def)
  have alloc0: "qemu_allocate_wiredriver None obj None s = returns (None, s)"
    by (simp add: qemu_allocate_wiredriver_def)
  have free_driver: "qemu_free_wiredriver cb unref None s = returns s"
    by (simp add: qemu_free_wiredriver_def)
  have attach: "qemu_wire_attach None driver s = returns s"
    by (simp add: qemu_wire_attach_def)
  have detach: "qemu_wire_detach cb None driver s = returns s"
    by (simp add: qemu_wire_detach_def)
  have intrinsic: "qemu_set_wire_intrinsic None v s = returns s"
    by (simp add: qemu_set_wire_intrinsic_def)
  have drive: "qemu_wire_drive cb None strength dval s = returns s"
    by (simp add: qemu_wire_drive_def qemu_wire_multi_drive_def)
  have drive_a: "qemu_wire_drive_a cb None strength aval s = returns s"
    by (simp add: qemu_wire_drive_a_def qemu_wire_multi_drive_def)
  have drive_z: "qemu_wire_drive_z cb None s = returns s"
    by (simp add: qemu_wire_drive_z_def qemu_wire_drive_def qemu_wire_multi_drive_def)
  note batch = multi_drive_skips_null[of cb drives s]
  note batch_null = multi_drive_all_null[of cb drives s]
  have sense: "qemu_wire_sense None s = returns (False, STRENGTH_HI_Z)"
    by (simp add: qemu_wire_sense_def)
  have sense_a: "qemu_wire_sense_a None s = returns (0, STRENGTH_HI_Z)"
    by (simp add: qemu_wire_sense_a_def)
  have sense_strength: "qemu_wire_sense_strength None s = returns STRENGTH_HI_Z"
    by (simp add: qemu_wire_sense_strength_def)
  have sense_conflicted: "qemu_wire_sense_conflicted None s = returns False"
    by (simp add: qemu_wire_sense_conflicted_def)
  have multi_sense:
    "(if n > 32 then 32 else n) \<le> length wires \<and>
     (\<forall>j < (if n > 32 then 32 else n). wires ! j = None \<or> live_wire s (wires ! j)) \<longrightarrow>
     (\<exists>r k. qemu_wire_multi_sense wires n s = returns (r, k) \<and>
        (\<forall>j < (if n > 32 then 32 else n). wires ! j = None \<longrightarrow> \<not> bit r j) \<and>
        ((\<exists>j < (if n > 32 then 32 else n). wires ! j = None) \<longrightarrow> k = STRENGTH_HI_Z))"
    using multi_sense_null[of n wires s] by blast
  have listen: "qemu_wire_listen None handler opaque s = returns s"
    by (simp add: qemu_wire_listen_def)
  have unlisten: "qemu_wire_unlisten None handler opaque s = returns s"
    by (simp add: qemu_wire_unlisten_def)
  have listen0: "qemu_wire_multi_listen new junk wires 0 handler opaque s = returns (None, s)"
    by (simp add: qemu_wire_multi_listen_def)
  have multi_listen:
    "0 < n \<and> n \<le> length wires \<and> (\<forall>j<n. wires ! j = None \<or> live_wire s (wires ! j)) \<longrightarrow>
     (\<exists>s'. qemu_wire_multi_listen (Some ml) junk wires n handler opaque s = returns (Some ml, s') \<and>
        driver_heap s' = driver_heap s \<and> trace s' = trace s \<and>
        (\<forall>w. (\<forall>j<n. wires ! j \<noteq> Some w) \<longrightarrow> wire_heap s' w = wire_heap s w))"
  proof (intro impI, elim conjE)
    assume n: "0 < n" and len: "n \<le> length wires"
      and ok: "\<forall>j<n. wires ! j = None \<or> live_wire s (wires ! j)"
    let ?M = "\<lparr>ml_handler = handler, ml_opaque = opaque, ml_n = n, ml_value = junk,
               ml_weakest_strength = STRENGTH_HI_Z, ml_in_conflict = False, ml_wires = []\<rparr>"
    let ?s1 = "s\<lparr>multi_heap := (multi_heap s)(ml \<mapsto> ?M)\<rparr>"
    have ok1: "\<forall>j. 0 \<le> j \<and> j < n \<longrightarrow> wires ! j = None \<or> live_wire ?s1 (wires ! j)"
      using ok by (simp add: live_wire_dom)
    have mh: "multi_heap ?s1 ml \<noteq> None" by simp
    have z: "0 \<le> n" by simp
    from multi_listen_walk_null[OF len z ok1 mh] obtain s' where
      s': "multi_listen_walk wires n ml 0 ?s1 = returns s' \<and>
        driver_heap s' = driver_heap ?s1 \<and> trace s' = trace ?s1 \<and>
        dom (wire_heap s') = dom (wire_heap ?s1) \<and>
        (\<forall>w. (\<forall>j. 0 \<le> j \<and> j < n \<longrightarrow> wires ! j \<noteq> Some w) \<longrightarrow> wire_heap s' w = wire_heap ?s1 w)"
      by (elim exE)
    then have run: "multi_listen_walk wires n ml 0 ?s1 = returns s'"
      and dh: "driver_heap s' = driver_heap s" and tr: "trace s' = trace s"
      and wh: "\<forall>w. (\<forall>j<n. wires ! j \<noteq> Some w) \<longrightarrow> wire_heap s' w = wire_heap s w"
      by simp_all
    from n run have "qemu_wire_multi_listen (Some ml) junk wires n handler opaque s = returns (Some ml, s')"
      by (simp add: qemu_wire_multi_listen_def)
    with dh tr wh show "\<exists>s'. qemu_wire_multi_listen (Some ml) junk wires n handler opaque s =
        returns (Some ml, s') \<and> driver_heap s' = driver_heap s \<and> trace s' = trace s \<and>
        (\<forall>w. (\<forall>j<n. wires ! j \<noteq> Some w) \<longrightarrow> wire_heap s' w = wire_heap s w)"
      by blast
  qed
  have unlisten0: "qemu_wire_multi_unlisten None s = returns s"
    by (simp add: qemu_wire_multi_unlisten_def)
  have multi_unlisten:
    "multi_heap s ml = Some M \<and> ml_n M \<le> length (ml_wires M) \<and>
     (\<forall>j < ml_n M. ml_wires M ! j = None \<or> live_wire s (ml_wires M ! j)) \<longrightarrow>
     (\<exists>s'. qemu_wire_multi_unlisten (Some ml) s = returns s' \<and>
        driver_heap s' = driver_heap s \<and> trace s' = trace s \<and>
        (\<forall>w. (\<forall>j < ml_n M. ml_wires M ! j \<noteq> Some w) \<longrightarrow> wire_heap s' w = wire_heap s w))"
  proof (intro impI, elim conjE)
    assume M: "multi_heap s ml = Some M" and len: "ml_n M \<le> length (ml_wires M)"
      and ok: "\<forall>j < ml_n M. ml_wires M ! j = None \<or> live_wire s (ml_wires M ! j)"
    have ok1: "\<forall>j. 0 \<le> j \<and> j < ml_n M \<longrightarrow> ml_wires M ! j = None \<or> live_wire s (ml_wires M ! j)"
      using ok by simp
    have z: "0 \<le> ml_n M" by simp
    from multi_unlisten_walk_null[OF len z ok1, of ml] obtain s' where
      s': "multi_unlisten_walk (ml_wires M) (ml_n M) ml 0 s = returns s' \<and>
        driver_heap s' = driver_heap s \<and> trace s' = trace s \<and>
        multi_heap s' = multi_heap s \<and> dom (wire_heap s') = dom (wire_heap s) \<and>
        (\<forall>w. (\<forall>j. 0 \<le> j \<and> j < ml_n M \<longrightarrow> ml_wires M ! j \<noteq> Some w) \<longrightarrow>
             wire_heap s' w = wire_heap s w)"
      by (elim exE)
    then have run: "multi_unlisten_walk (ml_wires M) (ml_n M) ml 0 s = returns s'"
      and dh: "driver_heap s' = driver_heap s" and tr: "trace s' = trace s"
      and wh: "\<forall>w. (\<forall>j < ml_n M. ml_wires M ! j \<noteq> Some w) \<longrightarrow> wire_heap s' w = wire_heap s w"
      by simp_all
    from M run have "qemu_wire_multi_unlisten (Some ml) s = returns s'"
      by (simp add: qemu_wire_multi_unlisten_def)
    with dh tr wh show "\<exists>s'. qemu_wire_multi_unlisten (Some ml) s = returns s' \<and>
        driver_heap s' = driver_heap s \<and> trace s' = trace s \<and>
        (\<forall>w. (\<forall>j < ml_n M. ml_wires M ! j \<noteq> Some w) \<longrightarrow> wire_heap s' w = wire_heap s w)"
      by blast
  qed
  show ?thesis
    by (intro conjI)
      (rule free_wire alloc alloc0 free_driver attach detach intrinsic drive drive_a drive_z
         batch batch_null sense sense_a sense_strength sense_conflicted multi_sense listen
         unlisten listen0 multi_listen unlisten0 multi_unlisten)+
qed


theorem null_wire_accepted_witness:
  "(\<exists>r k. qemu_wire_multi_sense [None, Some 0] 2 null_state = returns (r, k) \<and>
      \<not> bit r 0 \<and> k = STRENGTH_HI_Z) \<and>
   (\<exists>s'. qemu_wire_multi_listen (Some 7) 0 [None, Some 0] 2 3 0 null_state = returns (Some 7, s') \<and>
      driver_heap s' = driver_heap null_state) \<and>
   (\<exists>s'. qemu_wire_multi_unlisten (Some 7) null_multi_state = returns s' \<and>
      trace s' = trace null_multi_state)"
proof -
  let ?wires = "[None, Some 0] :: qemu_wire list"
  let ?M = "\<lparr>ml_handler = 3, ml_opaque = 0, ml_n = 2, ml_value = 0,
             ml_weakest_strength = STRENGTH_HI_Z, ml_in_conflict = False,
             ml_wires = ?wires\<rparr>"
  have two: "j < 2 \<longleftrightarrow> j = 0 \<or> j = Suc 0" for j :: nat by auto
  have live: "live_wire null_state (Some 0)" "live_wire null_multi_state (Some 0)"
    by (simp_all add: live_wire_def null_state_def null_multi_state_def)
  have ok: "\<forall>j<2. ?wires ! j = None \<or> live_wire null_state (?wires ! j)"
    using live by (auto simp: two)
  have ok': "\<forall>j<2. ?wires ! j = None \<or> live_wire null_multi_state (?wires ! j)"
    using live by (auto simp: two)
  have M: "multi_heap null_multi_state 7 = Some ?M"
    by (simp add: null_multi_state_def)
  note a = null_wire_accepted[where s = null_state and wires = ?wires and n = 2 and ml = 7
      and junk = 0 and handler = 3 and opaque = 0]
  note b = null_wire_accepted[where s = null_multi_state and ml = 7 and M = ?M]
  have len: "(if (2 :: nat) > 32 then 32 else 2) \<le> length ?wires" "(2 :: nat) \<le> length ?wires"
    "0 < (2 :: nat)" "ml_n ?M \<le> length (ml_wires ?M)"
    by simp_all
  have ok2: "\<forall>j < (if (2 :: nat) > 32 then 32 else 2). ?wires ! j = None \<or> live_wire null_state (?wires ! j)"
    using ok by simp
  have okM: "\<forall>j < ml_n ?M. ml_wires ?M ! j = None \<or> live_wire null_multi_state (ml_wires ?M ! j)"
    using ok' by simp
  from a len(1) ok2 have "\<exists>r k. qemu_wire_multi_sense ?wires 2 null_state = returns (r, k) \<and>
       (\<forall>j < (if (2 :: nat) > 32 then 32 else 2). ?wires ! j = None \<longrightarrow> \<not> bit r j) \<and>
       ((\<exists>j < (if (2 :: nat) > 32 then 32 else 2). ?wires ! j = None) \<longrightarrow> k = STRENGTH_HI_Z)"
    by blast
  then obtain r k where
    r: "qemu_wire_multi_sense ?wires 2 null_state = returns (r, k)"
    and bits: "\<forall>j<2. ?wires ! j = None \<longrightarrow> \<not> bit r j"
    and weak: "(\<exists>j<2. ?wires ! j = None) \<longrightarrow> k = STRENGTH_HI_Z"
    by auto
  from bits have b0: "\<not> bit r 0" by (simp add: two)
  from weak have k: "k = STRENGTH_HI_Z" by (auto simp: two)
  from a len(2,3) ok have "\<exists>s'. qemu_wire_multi_listen (Some 7) 0 ?wires 2 3 0 null_state =
        returns (Some 7, s') \<and> driver_heap s' = driver_heap null_state \<and>
        trace s' = trace null_state \<and>
        (\<forall>w. (\<forall>j<2. ?wires ! j \<noteq> Some w) \<longrightarrow> wire_heap s' w = wire_heap null_state w)"
    by blast
  then obtain s1 where
    s1: "qemu_wire_multi_listen (Some 7) 0 ?wires 2 3 0 null_state = returns (Some 7, s1)"
    and d1: "driver_heap s1 = driver_heap null_state"
    by blast
  from b M len(4) okM have "\<exists>s'. qemu_wire_multi_unlisten (Some 7) null_multi_state = returns s' \<and>
       driver_heap s' = driver_heap null_multi_state \<and> trace s' = trace null_multi_state \<and>
       (\<forall>w. (\<forall>j < ml_n ?M. ml_wires ?M ! j \<noteq> Some w) \<longrightarrow>
            wire_heap s' w = wire_heap null_multi_state w)"
    by blast
  then obtain s2 where
    s2: "qemu_wire_multi_unlisten (Some 7) null_multi_state = returns s2"
    and t2: "trace s2 = trace null_multi_state"
    by blast
  from r b0 k s1 d1 s2 t2 show ?thesis by blast
qed

end
